theory Spec2Isabelle
  imports Main "HOL-Library.Sublist" "HOL-Library.AList"
begin

section \<open>The dashboard server \<open>serve.py\<close> of Ralph Deluxe\<close>

text \<open>
  The server writes two files of the orchestrator's control plane:
  \<open>.ralph/control/commands.json\<close> (a queue of operator commands) and
  \<open>.ralph/config/ralph.conf\<close> (lines \<open>KEY="value"\<close>). This theory embeds
  \<open>atomic_write\<close>, \<open>enqueue_command\<close>, \<open>update_settings\<close> and the two POST
  handlers as functions on an explicit file system, with every exception of the
  Python code as a value \<open>Inl e\<close>.

  What belongs to the Python runtime and not to \<open>serve.py\<close> is a parameter:
  \<^item> the JSON codec (\<open>json.loads\<close>, \<open>json.dumps\<close>) and the text of an exception
    (\<open>str(e)\<close>) are the fields of a record \<open>runtime\<close>;
  \<^item> the operating system decides whether a system call fails and which random
    names \<open>tempfile.mkstemp\<close> tries: the fields of a record \<open>os_env\<close>.

  A file holds the characters that are on disk. Reading in text mode translates
  the line ends (\<open>universal_newlines\<close>); writing in text mode is taken on POSIX,
  where \<open>os.linesep\<close> is the newline and nothing is translated. Encodings are
  below this model: characters are the 8-bit \<open>char\<close>. Only exceptions derived
  from \<open>Exception\<close> are modelled (an interrupt such as \<open>KeyboardInterrupt\<close> is
  not).
\<close>

subsection \<open>Values, exceptions, paths\<close>

text \<open>
  A parsed JSON value. An object keeps the insertion order of a Python \<open>dict\<close>.
  A float carries the text that \<open>repr\<close> gives for it; floating point itself is
  not modelled.
\<close>

datatype json =
    JNull
  | JBool bool
  | JInt int
  | JFloat string
  | JStr string
  | JArr "json list"
  | JObj "(string \<times> json) list"

text \<open>
  The exceptions that reach the handlers. \<open>JSONDecodeError\<close> is the class the
  handlers catch first; every other class falls to \<open>except Exception\<close>.
\<close>

datatype error =
    JSONDecodeError
  | ValueError
  | TypeError
  | AttributeError
  | KeyError
  | OSError string

text \<open>
  A path is the list of its components, from the project root; \<open>serve.py\<close>
  lives in \<open>.ralph\<close>, which is \<open>SCRIPT_DIR\<close>.
\<close>

type_synonym path = "string list"

definition parent :: "path \<Rightarrow> path" where
  "parent p = butlast p"

definition SCRIPT_DIR :: path where
  "SCRIPT_DIR = [''.ralph'']"

definition CONTROL_FILE :: path where
  "CONTROL_FILE = SCRIPT_DIR @ [''control'', ''commands.json'']"

definition CONFIG_FILE :: path where
  "CONFIG_FILE = SCRIPT_DIR @ [''config'', ''ralph.conf'']"

definition newline :: char where
  "newline = CHR 0x0A"

definition carriage_return :: char where
  "carriage_return = CHR 0x0D"

subsection \<open>The file system and the system calls\<close>

record filesystem =
  files :: "path \<rightharpoonup> string"
  dirs :: "path set"

text \<open>
  The faults of one call into \<open>serve.py\<close>: for each kind of system call the
  exception it raises, if any. A failing write names how many characters
  reached the file before the exception. \<open>mkstemp_names\<close> are the random parts
  of the names that \<open>tempfile.mkstemp\<close> tries, in order.
\<close>

record os_env =
  mkdir_fault :: "error option"
  mkstemp_fault :: "error option"
  mkstemp_names :: "string list"
  write_fault :: "(nat \<times> error) option"
  replace_fault :: "error option"
  unlink_fault :: "error option"
  read_fault :: "error option"

definition is_file :: "filesystem \<Rightarrow> path \<Rightarrow> bool" where
  "is_file fs p = (files fs p \<noteq> None)"

definition is_dir :: "filesystem \<Rightarrow> path \<Rightarrow> bool" where
  "is_dir fs p = (p \<in> dirs fs)"

definition path_exists :: "filesystem \<Rightarrow> path \<Rightarrow> bool" where
  "path_exists fs p = (is_file fs p \<or> is_dir fs p)"

text \<open>
  \<open>Path.mkdir(parents=True, exist_ok=True)\<close>: creates the directory and its
  ancestors where they are missing; fails when the path or an ancestor is a file.
\<close>

definition mkdir_parents :: "os_env \<Rightarrow> filesystem \<Rightarrow> path \<Rightarrow> error + filesystem" where
  "mkdir_parents env fs d =
     (case mkdir_fault env of
        Some e \<Rightarrow> Inl e
      | None \<Rightarrow>
          if list_ex (is_file fs) (prefixes d)
          then Inl (OSError (if is_file fs d then ''FileExistsError'' else ''NotADirectoryError''))
          else Inr (fs\<lparr>dirs := dirs fs \<union> set (prefixes d)\<rparr>))"

text \<open>
  \<open>tempfile.mkstemp(dir=d, suffix=sfx)\<close>: the first candidate name
  \<open>tmp<random><sfx>\<close> that does not exist in \<open>d\<close> is created empty (\<open>O_EXCL\<close>);
  when every candidate exists it raises \<open>FileExistsError\<close>.
\<close>

definition mkstemp :: "os_env \<Rightarrow> filesystem \<Rightarrow> path \<Rightarrow> string \<Rightarrow> error + (path \<times> filesystem)" where
  "mkstemp env fs d sfx =
     (case mkstemp_fault env of
        Some e \<Rightarrow> Inl e
      | None \<Rightarrow>
          if \<not> is_dir fs d then Inl (OSError ''FileNotFoundError'')
          else
            (case find (\<lambda>p. \<not> path_exists fs p)
                    (map (\<lambda>r. d @ [''tmp'' @ r @ sfx]) (mkstemp_names env)) of
               None \<Rightarrow> Inl (OSError ''FileExistsError'')
             | Some p \<Rightarrow> Inr (p, fs\<lparr>files := (files fs)(p \<mapsto> [])\<rparr>)))"

text \<open>\<open>with os.fdopen(fd, "w") as f: f.write(data)\<close> on the file at \<open>p\<close>.\<close>

definition write_text :: "os_env \<Rightarrow> filesystem \<Rightarrow> path \<Rightarrow> string \<Rightarrow> (error + unit) \<times> filesystem" where
  "write_text env fs p data =
     (case write_fault env of
        Some (n, e) \<Rightarrow> (Inl e, fs\<lparr>files := (files fs)(p \<mapsto> take n data)\<rparr>)
      | None \<Rightarrow> (Inr (), fs\<lparr>files := (files fs)(p \<mapsto> data)\<rparr>))"

text \<open>\<open>os.replace(src, dst)\<close>: one step that moves the content of \<open>src\<close> to \<open>dst\<close>.\<close>

definition os_replace :: "os_env \<Rightarrow> filesystem \<Rightarrow> path \<Rightarrow> path \<Rightarrow> error + filesystem" where
  "os_replace env fs src dst =
     (case replace_fault env of
        Some e \<Rightarrow> Inl e
      | None \<Rightarrow>
          if \<not> is_file fs src then Inl (OSError ''FileNotFoundError'')
          else if is_dir fs dst then Inl (OSError ''IsADirectoryError'')
          else Inr (fs\<lparr>files := (files fs)(src := None, dst := files fs src)\<rparr>))"

definition os_unlink :: "os_env \<Rightarrow> filesystem \<Rightarrow> path \<Rightarrow> error + filesystem" where
  "os_unlink env fs p =
     (case unlink_fault env of
        Some e \<Rightarrow> Inl e
      | None \<Rightarrow>
          if \<not> is_file fs p then Inl (OSError ''FileNotFoundError'')
          else Inr (fs\<lparr>files := (files fs)(p := None)\<rparr>))"

text \<open>
  What text mode does to the line ends when it reads (\<open>newline=None\<close>): a
  carriage return followed by a newline, and a carriage return alone, both
  become one newline.
\<close>

fun universal_newlines :: "string \<Rightarrow> string" where
  "universal_newlines [] = []"
| "universal_newlines [c] = [if c = carriage_return then newline else c]"
| "universal_newlines (c # d # cs) =
     (if c = carriage_return \<and> d = newline then newline # universal_newlines cs
      else if c = carriage_return then newline # universal_newlines (d # cs)
      else c # universal_newlines (d # cs))"

text \<open>\<open>with open(p, "r") as f: f.read()\<close>.\<close>

definition read_text :: "os_env \<Rightarrow> filesystem \<Rightarrow> path \<Rightarrow> error + string" where
  "read_text env fs p =
     (case read_fault env of
        Some e \<Rightarrow> Inl e
      | None \<Rightarrow>
          (case files fs p of
             Some s \<Rightarrow> Inr (universal_newlines s)
           | None \<Rightarrow> Inl (OSError (if is_dir fs p then ''IsADirectoryError'' else ''FileNotFoundError''))))"

text \<open>
  The operating system lets \<open>atomic_write\<close> to \<open>p\<close> go through: no system call is
  made to fail, no component of the parent directory is a file, one of the
  candidate names for the temporary file is free, and \<open>p\<close> is not a directory.
\<close>

definition writable :: "os_env \<Rightarrow> filesystem \<Rightarrow> path \<Rightarrow> bool" where
  "writable env fs p \<longleftrightarrow>
     mkdir_fault env = None \<and> mkstemp_fault env = None \<and> write_fault env = None \<and>
     replace_fault env = None \<and>
     \<not> list_ex (is_file fs) (prefixes (parent p)) \<and>
     list_ex (\<lambda>r. \<not> path_exists fs (parent p @ [''tmp'' @ r @ ''.tmp''])) (mkstemp_names env) \<and>
     \<not> is_dir fs p"

subsection \<open>\<open>atomic_write\<close>\<close>

text \<open>
  The \<open>except Exception\<close> clause of \<open>atomic_write\<close>: unlink the temporary file and
  raise again. When \<open>os.unlink\<close> itself raises, that exception leaves the clause.
\<close>

definition unlink_and_reraise :: "os_env \<Rightarrow> filesystem \<Rightarrow> path \<Rightarrow> error \<Rightarrow> (error + unit) \<times> filesystem" where
  "unlink_and_reraise env fs tmp_path e =
     (case os_unlink env fs tmp_path of
        Inl e' \<Rightarrow> (Inl e', fs)
      | Inr fs' \<Rightarrow> (Inl e, fs'))"

definition atomic_write :: "os_env \<Rightarrow> filesystem \<Rightarrow> path \<Rightarrow> string \<Rightarrow> (error + unit) \<times> filesystem" where
  "atomic_write env fs filepath data =
     (case mkdir_parents env fs (parent filepath) of
        Inl e \<Rightarrow> (Inl e, fs)
      | Inr fs1 \<Rightarrow>
          (case mkstemp env fs1 (parent filepath) ''.tmp'' of
             Inl e \<Rightarrow> (Inl e, fs1)
           | Inr (tmp_path, fs2) \<Rightarrow>
               (case write_text env fs2 tmp_path data of
                  (Inl e, fs3) \<Rightarrow> unlink_and_reraise env fs3 tmp_path e
                | (Inr u, fs3) \<Rightarrow>
                    (case os_replace env fs3 tmp_path filepath of
                       Inl e \<Rightarrow> unlink_and_reraise env fs3 tmp_path e
                     | Inr fs4 \<Rightarrow> (Inr (), fs4)))))"

subsection \<open>The states \<open>atomic_write\<close> passes through\<close>

text \<open>
  Another process that opens the target while \<open>atomic_write\<close> runs sees the
  file system in one of the states between two system calls. While the content
  is written, the temporary file holds a longer and longer beginning of it, up
  to all of it or up to the point where the write fails.
\<close>

definition write_trace :: "os_env \<Rightarrow> filesystem \<Rightarrow> path \<Rightarrow> string \<Rightarrow> filesystem list" where
  "write_trace env fs p data =
     map (\<lambda>k. fs\<lparr>files := (files fs)(p \<mapsto> take k data)\<rparr>)
       [0..<Suc (case write_fault env of
                   Some (n, e) \<Rightarrow> min n (length data)
                 | None \<Rightarrow> length data)]"

text \<open>The state after the \<open>os.unlink\<close> of the \<open>except\<close> clause, when it succeeds.\<close>

definition unlink_trace :: "os_env \<Rightarrow> filesystem \<Rightarrow> path \<Rightarrow> filesystem list" where
  "unlink_trace env fs tmp_path =
     (case os_unlink env fs tmp_path of
        Inl e \<Rightarrow> []
      | Inr fs' \<Rightarrow> [fs'])"

text \<open>
  The states in the order of the calls of \<open>atomic_write\<close>: the initial one, after
  \<open>mkdir\<close>, after \<open>mkstemp\<close>, during the write, and after \<open>os.replace\<close> or after
  the clean-up.
\<close>

definition atomic_write_trace :: "os_env \<Rightarrow> filesystem \<Rightarrow> path \<Rightarrow> string \<Rightarrow> filesystem list" where
  "atomic_write_trace env fs filepath data =
     fs #
     (case mkdir_parents env fs (parent filepath) of
        Inl e \<Rightarrow> []
      | Inr fs1 \<Rightarrow>
          fs1 #
          (case mkstemp env fs1 (parent filepath) ''.tmp'' of
             Inl e \<Rightarrow> []
           | Inr (tmp_path, fs2) \<Rightarrow>
               fs2 # write_trace env fs2 tmp_path data @
               (case write_text env fs2 tmp_path data of
                  (Inl e, fs3) \<Rightarrow> unlink_trace env fs3 tmp_path
                | (Inr u, fs3) \<Rightarrow>
                    (case os_replace env fs3 tmp_path filepath of
                       Inl e \<Rightarrow> unlink_trace env fs3 tmp_path
                     | Inr fs4 \<Rightarrow> [fs4]))))"

subsection \<open>Python operations on JSON values\<close>

record runtime =
  json_loads :: "string \<Rightarrow> error + json"
  json_dumps :: "nat option \<Rightarrow> json \<Rightarrow> string"
  exc_str :: "error \<Rightarrow> string"

text \<open>\<open>key in x\<close> for a string \<open>key\<close>.\<close>

fun py_in :: "string \<Rightarrow> json \<Rightarrow> error + bool" where
  "py_in key (JObj kvs) = Inr (key \<in> set (map fst kvs))"
| "py_in key (JArr xs) = Inr (JStr key \<in> set xs)"
| "py_in key (JStr s) = Inr (sublist key s)"
| "py_in key _ = Inl TypeError"

text \<open>\<open>x[key] = v\<close> and \<open>x[key]\<close> for a string \<open>key\<close>.\<close>

fun py_setitem :: "json \<Rightarrow> string \<Rightarrow> json \<Rightarrow> error + json" where
  "py_setitem (JObj kvs) key v = Inr (JObj (AList.update key v kvs))"
| "py_setitem _ key v = Inl TypeError"

fun py_getitem :: "json \<Rightarrow> string \<Rightarrow> error + json" where
  "py_getitem (JObj kvs) key =
     (case map_of kvs key of Some v \<Rightarrow> Inr v | None \<Rightarrow> Inl KeyError)"
| "py_getitem _ key = Inl TypeError"

text \<open>\<open>x.append(v)\<close>: only a list has the method.\<close>

fun py_append :: "json \<Rightarrow> json \<Rightarrow> error + json" where
  "py_append (JArr xs) v = Inr (JArr (xs @ [v]))"
| "py_append _ v = Inl AttributeError"

fun py_len :: "json \<Rightarrow> error + int" where
  "py_len (JArr xs) = Inr (int (length xs))"
| "py_len (JObj kvs) = Inr (int (length kvs))"
| "py_len (JStr s) = Inr (int (length s))"
| "py_len _ = Inl TypeError"

text \<open>Truth value of a JSON value (\<open>not body\<close>).\<close>

fun py_truthy :: "json \<Rightarrow> bool" where
  "py_truthy JNull = False"
| "py_truthy (JBool b) = b"
| "py_truthy (JInt i) = (i \<noteq> 0)"
| "py_truthy (JFloat r) = (r \<noteq> ''0.0'' \<and> r \<noteq> ''-0.0'')"
| "py_truthy (JStr s) = (s \<noteq> [])"
| "py_truthy (JArr xs) = (xs \<noteq> [])"
| "py_truthy (JObj kvs) = (kvs \<noteq> [])"

subsection \<open>\<open>enqueue_command\<close>\<close>

text \<open>The document the queue starts from: read from the file, or \<open>{"pending": []}\<close>.\<close>

definition load_control :: "runtime \<Rightarrow> os_env \<Rightarrow> filesystem \<Rightarrow> error + json" where
  "load_control rt env fs =
     (if path_exists fs CONTROL_FILE then
        (case read_text env fs CONTROL_FILE of
           Inl e \<Rightarrow> Inl e
         | Inr s \<Rightarrow> json_loads rt s)
      else Inr (JObj [(''pending'', JArr [])]))"

text \<open>\<open>if "pending" not in control: control["pending"] = []\<close>.\<close>

definition ensure_pending :: "json \<Rightarrow> error + json" where
  "ensure_pending control =
     (case py_in ''pending'' control of
        Inl e \<Rightarrow> Inl e
      | Inr True \<Rightarrow> Inr control
      | Inr False \<Rightarrow> py_setitem control ''pending'' (JArr []))"

text \<open>\<open>control["pending"].append(command_obj)\<close>, the list changed in place.\<close>

definition append_pending :: "json \<Rightarrow> json \<Rightarrow> error + json" where
  "append_pending control command_obj =
     (case py_getitem control ''pending'' of
        Inl e \<Rightarrow> Inl e
      | Inr p \<Rightarrow>
          (case py_append p command_obj of
             Inl e \<Rightarrow> Inl e
           | Inr p' \<Rightarrow> py_setitem control ''pending'' p'))"

definition enqueue_command :: "runtime \<Rightarrow> os_env \<Rightarrow> filesystem \<Rightarrow> json \<Rightarrow> (error + json) \<times> filesystem" where
  "enqueue_command rt env fs command_obj =
     (case mkdir_parents env fs (parent CONTROL_FILE) of
        Inl e \<Rightarrow> (Inl e, fs)
      | Inr fs1 \<Rightarrow>
          (case load_control rt env fs1 of
             Inl e \<Rightarrow> (Inl e, fs1)
           | Inr control0 \<Rightarrow>
               (case ensure_pending control0 of
                  Inl e \<Rightarrow> (Inl e, fs1)
                | Inr control1 \<Rightarrow>
                    (case append_pending control1 command_obj of
                       Inl e \<Rightarrow> (Inl e, fs1)
                     | Inr control \<Rightarrow>
                         (case atomic_write env fs1 CONTROL_FILE
                                 (json_dumps rt (Some 2) control @ [newline]) of
                            (Inl e, fs2) \<Rightarrow> (Inl e, fs2)
                          | (Inr u, fs2) \<Rightarrow> (Inr control, fs2))))))"

text \<open>
  The \<open>pending\<close> sequence of a queue document; a document without the key stands
  for the empty queue.
\<close>

fun pending_of :: "json \<Rightarrow> json list option" where
  "pending_of (JObj kvs) =
     (case map_of kvs ''pending'' of
        None \<Rightarrow> Some []
      | Some (JArr xs) \<Rightarrow> Some xs
      | Some _ \<Rightarrow> None)"
| "pending_of _ = None"

subsection \<open>Text of a value: \<open>str\<close> and \<open>repr\<close>\<close>

definition digit_char :: "nat \<Rightarrow> char" where
  "digit_char d = char_of (48 + d)"

fun str_nat :: "nat \<Rightarrow> string" where
  "str_nat n = (if n < 10 then [digit_char n] else str_nat (n div 10) @ [digit_char (n mod 10)])"

definition str_int :: "int \<Rightarrow> string" where
  "str_int i = (if i < 0 then ''-'' @ str_nat (nat (- i)) else str_nat (nat i))"

definition hex_char :: "nat \<Rightarrow> char" where
  "hex_char d = (if d < 10 then char_of (48 + d) else char_of (87 + d))"

definition backslash :: char where
  "backslash = CHR 0x5C"

definition dquote :: char where
  "dquote = CHR 0x22"

definition squote :: char where
  "squote = CHR 0x27"

text \<open>One character inside \<open>repr\<close> of a string quoted with \<open>q\<close> (code points below 256).\<close>

definition repr_char :: "char \<Rightarrow> char \<Rightarrow> string" where
  "repr_char q c =
     (let n = (of_char c :: nat) in
      if c = q \<or> c = backslash then [backslash, c]
      else if c = CHR 0x09 then [backslash, CHR ''t'']
      else if c = CHR 0x0A then [backslash, CHR ''n'']
      else if c = CHR 0x0D then [backslash, CHR ''r'']
      else if n < 32 \<or> n = 127 \<or> (128 \<le> n \<and> n \<le> 160) \<or> n = 173
        then [backslash, CHR ''x'', hex_char (n div 16), hex_char (n mod 16)]
      else [c])"

definition repr_str :: "string \<Rightarrow> string" where
  "repr_str s =
     (let q = (if squote \<in> set s \<and> dquote \<notin> set s then dquote else squote)
      in [q] @ concat (map (repr_char q) s) @ [q])"

fun join :: "string \<Rightarrow> string list \<Rightarrow> string" where
  "join sep [] = []"
| "join sep [x] = x"
| "join sep (x # y # ys) = x @ sep @ join sep (y # ys)"

fun py_repr :: "json \<Rightarrow> string" where
  "py_repr JNull = ''None''"
| "py_repr (JBool b) = (if b then ''True'' else ''False'')"
| "py_repr (JInt i) = str_int i"
| "py_repr (JFloat r) = r"
| "py_repr (JStr s) = repr_str s"
| "py_repr (JArr xs) = ''['' @ join '', '' (map py_repr xs) @ '']''"
| "py_repr (JObj kvs) =
     ''{'' @ join '', '' (map (\<lambda>kv. repr_str (fst kv) @ '': '' @ py_repr (snd kv)) kvs) @ ''}''"

fun py_str :: "json \<Rightarrow> string" where
  "py_str (JStr s) = s"
| "py_str v = py_repr v"

subsection \<open>The regular expressions of \<open>update_settings\<close>\<close>

text \<open>
  The part of Python's \<open>re\<close> that the two patterns of \<open>update_settings\<close> use, as a
  backtracking matcher. A match state is the groups captured so far, the text
  before the current position (reversed) and the text after it. The matcher
  returns the states in which a match can end, in the order in which
  backtracking finds them; \<open>re\<close> takes the first.
\<close>

datatype regex =
    Eps
  | Lit char
  | Dot
  | CharSet "(char \<times> char) list"
  | Bol
  | Eol
  | Seq regex regex
  | Star regex
  | Plus regex
  | Group nat regex

type_synonym mstate = "(nat \<rightharpoonup> string) \<times> string \<times> string"

definition in_ranges :: "(char \<times> char) list \<Rightarrow> char \<Rightarrow> bool" where
  "in_ranges rs c =
     list_ex (\<lambda>(lo, hi). (of_char lo :: nat) \<le> of_char c \<and> (of_char c :: nat) \<le> of_char hi) rs"

text \<open>One character that satisfies \<open>P\<close>.\<close>

fun one_char :: "(char \<Rightarrow> bool) \<Rightarrow> mstate \<Rightarrow> mstate list" where
  "one_char P (g, b, []) = []"
| "one_char P (g, b, x # xs) = (if P x then [(g, x # b, xs)] else [])"

text \<open>
  Greedy repetition: as many rounds of \<open>step\<close> as possible first, none last. A
  round that consumes nothing is not repeated, so \<open>length rest\<close> rounds suffice.
\<close>

fun greedy_star :: "(mstate \<Rightarrow> mstate list) \<Rightarrow> nat \<Rightarrow> mstate \<Rightarrow> mstate list" where
  "greedy_star step 0 s = [s]"
| "greedy_star step (Suc n) s =
     concat (map (greedy_star step n)
               (filter (\<lambda>s'. length (snd (snd s')) < length (snd (snd s))) (step s))) @ [s]"

text \<open>
  \<open>ml\<close> is the flag \<open>re.MULTILINE\<close>. Without it \<open>^\<close> matches at the start of the
  text only, and \<open>$\<close> at the end of the text and before a newline that ends the
  text; with it they match at the start and at the end of every line as well.
  The dot matches every character but the newline.
\<close>

fun rx_match :: "bool \<Rightarrow> regex \<Rightarrow> mstate \<Rightarrow> mstate list" where
  "rx_match ml Eps s = [s]"
| "rx_match ml (Lit c) s = one_char (\<lambda>x. x = c) s"
| "rx_match ml Dot s = one_char (\<lambda>x. x \<noteq> newline) s"
| "rx_match ml (CharSet rs) s = one_char (in_ranges rs) s"
| "rx_match ml Bol (g, b, r) =
     (if b = [] \<or> (ml \<and> hd b = newline) then [(g, b, r)] else [])"
| "rx_match ml Eol (g, b, r) =
     (if r = [] \<or> r = [newline] \<or> (ml \<and> hd r = newline) then [(g, b, r)] else [])"
| "rx_match ml (Seq p q) s = concat (map (rx_match ml q) (rx_match ml p s))"
| "rx_match ml (Star p) s = greedy_star (rx_match ml p) (length (snd (snd s))) s"
| "rx_match ml (Plus p) s =
     concat (map (\<lambda>s'. greedy_star (rx_match ml p) (length (snd (snd s'))) s') (rx_match ml p s))"
| "rx_match ml (Group n p) (g, b, r) =
     map (\<lambda>(g', b', r'). (g'(n \<mapsto> rev (take (length b' - length b) b')), b', r'))
       (rx_match ml p (g, b, r))"

text \<open>\<open>re.match\<close>: a match that starts at the start of the text.\<close>

definition re_match :: "bool \<Rightarrow> regex \<Rightarrow> string \<Rightarrow> mstate option" where
  "re_match ml rx s = (case rx_match ml rx (Map.empty, [], s) of [] \<Rightarrow> None | x # _ \<Rightarrow> Some x)"

text \<open>\<open>pattern.search\<close>: the leftmost match.\<close>

fun search_from :: "bool \<Rightarrow> regex \<Rightarrow> string \<Rightarrow> string \<Rightarrow> mstate option" where
  "search_from ml rx b [] =
     (case rx_match ml rx (Map.empty, b, []) of [] \<Rightarrow> None | x # _ \<Rightarrow> Some x)"
| "search_from ml rx b (c # cs) =
     (case rx_match ml rx (Map.empty, b, c # cs) of
        [] \<Rightarrow> search_from ml rx (c # b) cs
      | x # _ \<Rightarrow> Some x)"

definition re_search :: "bool \<Rightarrow> regex \<Rightarrow> string \<Rightarrow> mstate option" where
  "re_search ml rx s = search_from ml rx [] s"

text \<open>A replacement template: literal text and group references \<open>\g<n>\<close>.\<close>

datatype titem = TLit string | TGroup nat

fun expand_item :: "(nat \<rightharpoonup> string) \<Rightarrow> titem \<Rightarrow> string" where
  "expand_item g (TLit s) = s"
| "expand_item g (TGroup n) = (case g n of None \<Rightarrow> [] | Some s \<Rightarrow> s)"

definition expand :: "titem list \<Rightarrow> (nat \<rightharpoonup> string) \<Rightarrow> string" where
  "expand tmpl g = concat (map (expand_item g) tmpl)"

text \<open>
  \<open>pattern.sub\<close>: every match, from left to right, is replaced by the expanded
  template; the text between the matches is copied. After an empty match the
  next match at the same position must be non-empty (\<open>adv\<close>).
\<close>

function sub_from :: "bool \<Rightarrow> regex \<Rightarrow> titem list \<Rightarrow> bool \<Rightarrow> string \<Rightarrow> string \<Rightarrow> string" where
  "sub_from ml rx tmpl adv b r =
     (case filter (\<lambda>s'. \<not> adv \<or> length (snd (snd s')) < length r)
             (rx_match ml rx (Map.empty, b, r)) of
        [] \<Rightarrow> (case r of [] \<Rightarrow> [] | c # cs \<Rightarrow> c # sub_from ml rx tmpl False (c # b) cs)
      | (g, b', r') # _ \<Rightarrow>
          if length r' < length r then expand tmpl g @ sub_from ml rx tmpl False b' r'
          else if adv then expand tmpl g
          else expand tmpl g @ sub_from ml rx tmpl True b r)"
  by pat_completeness auto
termination
  by (relation "measure (\<lambda>(ml, rx, tmpl, adv, b, r). 2 * length r + (if adv then 0 else 1))") auto

definition re_sub :: "bool \<Rightarrow> regex \<Rightarrow> titem list \<Rightarrow> string \<Rightarrow> string" where
  "re_sub ml rx tmpl s = sub_from ml rx tmpl False [] s"

fun lits :: "string \<Rightarrow> regex" where
  "lits [] = Eps"
| "lits (c # cs) = Seq (Lit c) (lits cs)"

subsection \<open>\<open>update_settings\<close>\<close>

definition ALLOWED_SETTINGS :: "string list" where
  "ALLOWED_SETTINGS =
     [''RALPH_VALIDATION_STRATEGY'',
      ''RALPH_COMPACTION_INTERVAL'',
      ''RALPH_COMPACTION_THRESHOLD_BYTES'',
      ''RALPH_DEFAULT_MAX_TURNS'',
      ''RALPH_MIN_DELAY_SECONDS'',
      ''RALPH_MODE'']"

text \<open>The pattern \<open>^[a-zA-Z0-9_\-]+$\<close>, used with \<open>re.match\<close> and no flag.\<close>

definition value_chars :: "(char \<times> char) list" where
  "value_chars =
     [(CHR ''a'', CHR ''z''), (CHR ''A'', CHR ''Z''), (CHR ''0'', CHR ''9''),
      (CHR ''_'', CHR ''_''), (CHR ''-'', CHR ''-'')]"

definition VALUE_RE :: regex where
  "VALUE_RE = Seq Bol (Seq (Plus (CharSet value_chars)) Eol)"

text \<open>
  The pattern \<open>^(KEY=).*$\<close> with \<open>re.MULTILINE\<close>; \<open>re.escape\<close> makes every
  character of the key a literal.
\<close>

definition key_pattern :: "string \<Rightarrow> regex" where
  "key_pattern key = Seq Bol (Seq (Group 1 (lits (key @ ''=''))) (Seq (Star Dot) Eol))"

text \<open>The replacement \<open>\g<1>"safe_value"\<close>.\<close>

definition replacement :: "string \<Rightarrow> titem list" where
  "replacement safe_value = [TGroup 1, TLit ([dquote] @ safe_value @ [dquote])]"

text \<open>The loop over \<open>settings.items()\<close>, with the variables \<open>content\<close> and \<open>updated\<close>.\<close>

fun settings_loop :: "(string \<times> json) list \<Rightarrow> string \<Rightarrow> string list \<Rightarrow> string \<times> string list" where
  "settings_loop [] content updated = (content, updated)"
| "settings_loop ((key, val) # rest) content updated =
     (if key \<notin> set ALLOWED_SETTINGS then settings_loop rest content updated
      else
        let safe_value = py_str val in
        if re_match False VALUE_RE safe_value = None then settings_loop rest content updated
        else
          let pattern = key_pattern key in
          if re_search True pattern content \<noteq> None
          then settings_loop rest (re_sub True pattern (replacement safe_value) content)
                 (updated @ [key])
          else settings_loop rest content updated)"

text \<open>\<open>settings.items()\<close>: only a dict has the method.\<close>

fun py_items :: "json \<Rightarrow> error + (string \<times> json) list" where
  "py_items (JObj kvs) = Inr kvs"
| "py_items _ = Inl AttributeError"

definition update_settings :: "os_env \<Rightarrow> filesystem \<Rightarrow> json \<Rightarrow> (error + json) \<times> filesystem" where
  "update_settings env fs settings =
     (if \<not> path_exists fs CONFIG_FILE
      then (Inr (JObj [(''error'', JStr ''ralph.conf not found'')]), fs)
      else
        (case read_text env fs CONFIG_FILE of
           Inl e \<Rightarrow> (Inl e, fs)
         | Inr content0 \<Rightarrow>
             (case py_items settings of
                Inl e \<Rightarrow> (Inl e, fs)
              | Inr items \<Rightarrow>
                  (case settings_loop items content0 [] of
                     (content, updated) \<Rightarrow>
                       if updated \<noteq> [] then
                         (case atomic_write env fs CONFIG_FILE content of
                            (Inl e, fs') \<Rightarrow> (Inl e, fs')
                          | (Inr u, fs') \<Rightarrow> (Inr (JObj [(''updated'', JArr (map JStr updated))]), fs'))
                       else (Inr (JObj [(''updated'', JArr (map JStr updated))]), fs)))))"

subsection \<open>The settings file as lines\<close>

text \<open>
  The lines of a text, as \<open>text.split("\n")\<close> gives them; \<open>join [newline]\<close> puts
  them together again.
\<close>

fun split_lines :: "string \<Rightarrow> string list" where
  "split_lines [] = [[]]"
| "split_lines (c # cs) =
     (if c = newline then [] # split_lines cs
      else (case split_lines cs of [] \<Rightarrow> [[c]] | l # ls \<Rightarrow> (c # l) # ls))"

text \<open>A line that starts with \<open>KEY=\<close> for a key of the allow-list.\<close>

definition allowed_line :: "string \<Rightarrow> bool" where
  "allowed_line l = list_ex (\<lambda>key. prefix (key @ ''='') l) ALLOWED_SETTINGS"

text \<open>A character of the class \<open>[a-zA-Z0-9_\-]\<close>.\<close>

definition value_char :: "char \<Rightarrow> bool" where
  "value_char c = in_ranges value_chars c"

text \<open>The line \<open>KEY="v"\<close> in place of a line that starts with \<open>KEY=\<close>.\<close>

definition quoted :: "string \<Rightarrow> string \<Rightarrow> string \<Rightarrow> string" where
  "quoted key v l = (if prefix (key @ ''='') l then key @ ''='' @ [dquote] @ v @ [dquote] else l)"

text \<open>What the loop of \<open>update_settings\<close> does to one line of the file.\<close>

fun rewrite_line :: "(string \<times> json) list \<Rightarrow> string \<Rightarrow> string" where
  "rewrite_line [] l = l"
| "rewrite_line ((key, val) # rest) l =
     (if key \<in> set ALLOWED_SETTINGS \<and> re_match False VALUE_RE (py_str val) \<noteq> None
      then rewrite_line rest (re_sub True (key_pattern key) (replacement (py_str val)) l)
      else rewrite_line rest l)"

subsection \<open>The POST handlers\<close>

text \<open>
  A request: the outcome of \<open>int(self.headers.get("Content-Length", 0))\<close> (a
  header that is no number raises \<open>ValueError\<close>) and the bytes that \<open>rfile\<close>
  holds. A response: what \<open>_send_json\<close> sends.
\<close>

record request =
  content_length :: "error + int"
  rfile :: string

record response =
  status :: nat
  headers :: "(string \<times> string) list"
  body :: string

definition read_body :: "runtime \<Rightarrow> request \<Rightarrow> error + json" where
  "read_body rt req =
     (case content_length req of
        Inl e \<Rightarrow> Inl e
      | Inr len \<Rightarrow>
          if len = 0 then Inr (JObj [])
          else json_loads rt (if len < 0 then rfile req else take (nat len) (rfile req)))"

definition send_json :: "runtime \<Rightarrow> nat \<Rightarrow> json \<Rightarrow> response" where
  "send_json rt st data =
     (let b = json_dumps rt None data in
      \<lparr>status = st,
       headers = [(''Content-Type'', ''application/json''),
                  (''Content-Length'', str_nat (length b)),
                  (''Access-Control-Allow-Origin'', ''*'')],
       body = b\<rparr>)"

text \<open>
  The two \<open>except\<close> clauses that both handlers end with: \<open>json.JSONDecodeError\<close>
  first, then \<open>Exception\<close>.
\<close>

definition on_exception :: "runtime \<Rightarrow> error \<Rightarrow> response" where
  "on_exception rt e =
     (case e of
        JSONDecodeError \<Rightarrow> send_json rt 400 (JObj [(''error'', JStr ''Invalid JSON'')])
      | _ \<Rightarrow> send_json rt 500 (JObj [(''error'', JStr (exc_str rt e))]))"

text \<open>\<open>len(result["pending"])\<close>.\<close>

definition pending_count :: "json \<Rightarrow> error + int" where
  "pending_count result =
     (case py_getitem result ''pending'' of
        Inl e \<Rightarrow> Inl e
      | Inr p \<Rightarrow> py_len p)"

definition handle_command :: "runtime \<Rightarrow> os_env \<Rightarrow> filesystem \<Rightarrow> request \<Rightarrow> response \<times> filesystem" where
  "handle_command rt env fs req =
     (case read_body rt req of
        Inl e \<Rightarrow> (on_exception rt e, fs)
      | Inr b \<Rightarrow>
          (case py_in ''command'' b of
             Inl e \<Rightarrow> (on_exception rt e, fs)
           | Inr False \<Rightarrow>
               (send_json rt 400 (JObj [(''error'', JStr ''Missing 'command' field'')]), fs)
           | Inr True \<Rightarrow>
               (case enqueue_command rt env fs b of
                  (Inl e, fs') \<Rightarrow> (on_exception rt e, fs')
                | (Inr result, fs') \<Rightarrow>
                    (case pending_count result of
                       Inl e \<Rightarrow> (on_exception rt e, fs')
                     | Inr n \<Rightarrow>
                         (send_json rt 200
                            (JObj [(''ok'', JBool True), (''pending_count'', JInt n)]), fs')))))"

text \<open>\<open>{"ok": True, **result}\<close>.\<close>

definition dict_merge :: "(string \<times> json) list \<Rightarrow> json \<Rightarrow> error + json" where
  "dict_merge base extra =
     (case py_items extra of
        Inl e \<Rightarrow> Inl TypeError
      | Inr kvs \<Rightarrow> Inr (JObj (fold (\<lambda>(k, v). AList.update k v) kvs base)))"

definition handle_settings :: "runtime \<Rightarrow> os_env \<Rightarrow> filesystem \<Rightarrow> request \<Rightarrow> response \<times> filesystem" where
  "handle_settings rt env fs req =
     (case read_body rt req of
        Inl e \<Rightarrow> (on_exception rt e, fs)
      | Inr b \<Rightarrow>
          if \<not> py_truthy b
          then (send_json rt 400 (JObj [(''error'', JStr ''Empty body'')]), fs)
          else
            (case update_settings env fs b of
               (Inl e, fs') \<Rightarrow> (on_exception rt e, fs')
             | (Inr result, fs') \<Rightarrow>
                 (case dict_merge [(''ok'', JBool True)] result of
                    Inl e \<Rightarrow> (on_exception rt e, fs')
                  | Inr data \<Rightarrow> (send_json rt 200 data, fs'))))"

subsection \<open>Concrete inputs\<close>

text \<open>
  A runtime whose JSON codec is given by two finite tables: the texts it parses
  (every other text is a \<open>JSONDecodeError\<close>) and the texts it prints.
\<close>

definition table_runtime ::
    "(string \<times> json) list \<Rightarrow> ((nat option \<times> json) \<times> string) list \<Rightarrow> runtime" where
  "table_runtime parse_tbl print_tbl =
     \<lparr>json_loads = (\<lambda>s. case map_of parse_tbl s of Some j \<Rightarrow> Inr j | None \<Rightarrow> Inl JSONDecodeError),
      json_dumps = (\<lambda>ind j. case map_of print_tbl (ind, j) of Some t \<Rightarrow> t | None \<Rightarrow> []),
      exc_str = (\<lambda>e. ''error'')\<rparr>"

definition pause_cmd :: json where
  "pause_cmd = JObj [(''command'', JStr ''pause'')]"

definition queue1_text :: string where
  "queue1_text =
     ''{\<newline>  \"pending\": [\<newline>    {\<newline>      \"command\": \"pause\"\<newline>    }\<newline>  ]\<newline>}''"

definition queue2_text :: string where
  "queue2_text =
     ''{\<newline>  \"pending\": [\<newline>    {\<newline>      \"command\": \"pause\"\<newline>    },\<newline>    {\<newline>      \"command\": \"pause\"\<newline>    }\<newline>  ]\<newline>}''"

definition example_runtime :: runtime where
  "example_runtime =
     table_runtime
       [(''{\"command\": \"pause\"}'', pause_cmd),
        (''{\"pending\": []}'', JObj [(''pending'', JArr [])]),
        (queue1_text @ [newline], JObj [(''pending'', JArr [pause_cmd])]),
        (''{\"RALPH_MODE\": \"debug\"}'', JObj [(''RALPH_MODE'', JStr ''debug'')])]
       [((Some 2, JObj [(''pending'', JArr [pause_cmd])]), queue1_text),
        ((Some 2, JObj [(''pending'', JArr [pause_cmd, pause_cmd])]), queue2_text),
        ((None, JObj [(''error'', JStr ''Invalid JSON'')]), ''{\"error\": \"Invalid JSON\"}''),
        ((None, JObj [(''ok'', JBool True), (''error'', JStr ''ralph.conf not found'')]),
         ''{\"ok\": true, \"error\": \"ralph.conf not found\"}'')]"

text \<open>An operating system without faults that offers one name for the temporary file.\<close>

definition example_env :: os_env where
  "example_env =
     \<lparr>mkdir_fault = None, mkstemp_fault = None, mkstemp_names = [''k3x9_0ab''],
      write_fault = None, replace_fault = None, unlink_fault = None, read_fault = None\<rparr>"

text \<open>A project without any control file, and one with a settings file.\<close>

definition empty_fs :: filesystem where
  "empty_fs = \<lparr>files = Map.empty, dirs = {[], [''.ralph'']}\<rparr>"

definition conf_text :: string where
  "conf_text = ''RALPH_MODE=\"auto\"\<newline>RALPH_SKIP_PERMISSIONS=\"true\"\<newline>''"

definition conf_fs :: filesystem where
  "conf_fs =
     \<lparr>files = [CONFIG_FILE \<mapsto> conf_text],
      dirs = {[], [''.ralph''], [''.ralph'', ''config'']}\<rparr>"

text \<open>A project whose queue file holds an empty queue, and one whose queue file is cut short.\<close>

definition queue0_fs :: filesystem where
  "queue0_fs =
     \<lparr>files = [CONTROL_FILE \<mapsto> ''{\"pending\": []}''],
      dirs = {[], [''.ralph''], [''.ralph'', ''control'']}\<rparr>"

definition corrupt_fs :: filesystem where
  "corrupt_fs =
     \<lparr>files = [CONTROL_FILE \<mapsto> ''{\"pending\": [''],
      dirs = {[], [''.ralph''], [''.ralph'', ''control'']}\<rparr>"

text \<open>The request \<open>POST /api/command\<close> with the body \<open>{"command": "pause"}\<close>.\<close>

definition pause_request :: request where
  "pause_request = \<lparr>content_length = Inr 20, rfile = ''{\"command\": \"pause\"}''\<rparr>"

text \<open>The settings payload \<open>{"RALPH_MODE": "debug", "UNKNOWN_KEY": "x"}\<close>.\<close>

definition example_items :: "(string \<times> json) list" where
  "example_items = [(''RALPH_MODE'', JStr ''debug''), (''UNKNOWN_KEY'', JStr ''x'')]"


text \<open>A settings file whose lines end with a carriage return and a newline.\<close>

definition crlf_text :: string where
  "crlf_text =
     ''RALPH_MODE=\"auto\"'' @ [carriage_return, newline] @
     ''FOO=\"bar\"'' @ [carriage_return, newline]"

definition crlf_fs :: filesystem where
  "crlf_fs =
     \<lparr>files = [CONFIG_FILE \<mapsto> crlf_text],
      dirs = {[], [''.ralph''], [''.ralph'', ''config'']}\<rparr>"

section \<open>Properties\<close>

subsection \<open>The system calls\<close>


lemma mkdir_parents_files:
  "mkdir_parents env fs d = Inr fs1 \<Longrightarrow> files fs1 = files fs \<and> dirs fs1 = dirs fs \<union> set (prefixes d)"
  by (auto simp: mkdir_parents_def split: option.splits if_splits)

lemma find_SomeD: "find P xs = Some x \<Longrightarrow> P x \<and> x \<in> set xs"
  by (induction xs) (auto split: if_splits)

lemma mkstemp_Inr:
  "mkstemp env fs d sfx = Inr (tmp, fs2) \<Longrightarrow>
     files fs tmp = None \<and> tmp \<notin> dirs fs \<and> files fs2 = (files fs)(tmp \<mapsto> []) \<and> dirs fs2 = dirs fs"
  by (auto simp: mkstemp_def path_exists_def is_file_def is_dir_def
      split: option.splits if_splits dest!: find_SomeD)

lemma write_text_files:
  "write_text env fs p data = (r, fs3) \<Longrightarrow> files fs3 p \<noteq> None \<and> (\<forall>q. q \<noteq> p \<longrightarrow> files fs3 q = files fs q) \<and> dirs fs3 = dirs fs"
  by (auto simp: write_text_def split: option.splits prod.splits)


lemma find_list_ex: "list_ex P xs \<Longrightarrow> \<exists>x. find P xs = Some x"
  by (induction xs) auto

lemma not_prefix_child: "d @ [x] \<notin> set (prefixes d)"
  by (auto simp: in_set_prefixes dest: prefix_length_le)

lemma parent_not_self: "p \<in> set (prefixes (parent p)) \<Longrightarrow> p = []"
  by (cases p rule: rev_cases) (auto simp: parent_def in_set_prefixes dest: prefix_length_le)

lemma atomic_write_ok:
  assumes "writable env fs p" and "p \<noteq> []"
  shows "atomic_write env fs p data =
           (Inr (), \<lparr>files = (files fs)(p \<mapsto> data), dirs = dirs fs \<union> set (prefixes (parent p))\<rparr>)"
proof -
  let ?d = "parent p"
  let ?fs1 = "fs\<lparr>dirs := dirs fs \<union> set (prefixes ?d)\<rparr>"
  have md: "mkdir_parents env fs ?d = Inr ?fs1"
    using assms by (simp add: writable_def mkdir_parents_def)
  have ex: "list_ex (\<lambda>q. \<not> path_exists ?fs1 q) (map (\<lambda>r. ?d @ [''tmp'' @ r @ ''.tmp'']) (mkstemp_names env))"
    using assms(1) not_prefix_child [of ?d]
    by (auto simp: writable_def list_ex_iff path_exists_def is_file_def is_dir_def)
  then obtain tmp where fnd: "find (\<lambda>q. \<not> path_exists ?fs1 q)
      (map (\<lambda>r. ?d @ [''tmp'' @ r @ ''.tmp'']) (mkstemp_names env)) = Some tmp"
    using find_list_ex by blast
  let ?fs2 = "?fs1\<lparr>files := (files ?fs1)(tmp \<mapsto> [])\<rparr>"
  have mt: "mkstemp env ?fs1 ?d ''.tmp'' = Inr (tmp, ?fs2)"
    using assms(1) fnd by (simp add: writable_def mkstemp_def is_dir_def)
  have fresh: "files fs tmp = None"
    using find_SomeD [OF fnd] by (simp add: path_exists_def is_file_def)
  let ?fs3 = "?fs2\<lparr>files := (files ?fs2)(tmp \<mapsto> data)\<rparr>"
  have wt: "write_text env ?fs2 tmp data = (Inr (), ?fs3)"
    using assms(1) by (simp add: writable_def write_text_def)
  have nd: "\<not> is_dir ?fs3 p"
    using assms parent_not_self [of p] by (auto simp: writable_def is_dir_def)
  have rp: "os_replace env ?fs3 tmp p = Inr (?fs3\<lparr>files := (files ?fs3)(tmp := None, p := files ?fs3 tmp)\<rparr>)"
    using assms(1) nd by (simp add: writable_def os_replace_def is_file_def)
  have "(files ?fs3)(tmp := None, p := files ?fs3 tmp) = (files fs)(p \<mapsto> data)"
    using fresh by (auto simp: fun_eq_iff)
  moreover have "atomic_write env fs p data =
      (Inr (), ?fs3\<lparr>files := (files ?fs3)(tmp := None, p := files ?fs3 tmp)\<rparr>)"
    by (simp only: atomic_write_def md mt wt rp sum.case prod.case)
  ultimately show ?thesis
    by simp
qed

subsection \<open>Successful writes\<close>

lemma writable_mkdir:
  assumes "writable env fs p" and "p \<noteq> []"
  shows "writable env (fs\<lparr>dirs := dirs fs \<union> set (prefixes (parent p))\<rparr>) p"
  using assms not_prefix_child [of "parent p"] parent_not_self [of p]
  by (auto simp: writable_def list_ex_iff path_exists_def is_file_def is_dir_def)

lemma CONTROL_FILE_nonempty: "CONTROL_FILE \<noteq> []"
  by (simp add: CONTROL_FILE_def)

lemma CONFIG_FILE_nonempty: "CONFIG_FILE \<noteq> []"
  by (simp add: CONFIG_FILE_def)

lemma path_exists_mkdir:
  assumes "p \<noteq> []"
  shows "path_exists (fs\<lparr>dirs := dirs fs \<union> set (prefixes (parent p))\<rparr>) p = path_exists fs p"
  using assms parent_not_self [of p] by (auto simp: path_exists_def is_file_def is_dir_def)

lemma enqueue_command_ok:
  assumes w: "writable env fs CONTROL_FILE"
    and l: "load_control rt env (fs\<lparr>dirs := dirs fs \<union> set (prefixes (parent CONTROL_FILE))\<rparr>) = Inr c0"
    and e: "ensure_pending c0 = Inr c1"
    and a: "append_pending c1 cmd = Inr c2"
  shows "enqueue_command rt env fs cmd =
           (Inr c2, \<lparr>files = (files fs)(CONTROL_FILE \<mapsto> json_dumps rt (Some 2) c2 @ [newline]),
                     dirs = dirs fs \<union> set (prefixes (parent CONTROL_FILE))\<rparr>)"
proof -
  let ?fs1 = "fs\<lparr>dirs := dirs fs \<union> set (prefixes (parent CONTROL_FILE))\<rparr>"
  have md: "mkdir_parents env fs (parent CONTROL_FILE) = Inr ?fs1"
    using w by (simp add: writable_def mkdir_parents_def)
  have aw: "atomic_write env ?fs1 CONTROL_FILE (json_dumps rt (Some 2) c2 @ [newline]) =
      (Inr (), \<lparr>files = (files ?fs1)(CONTROL_FILE \<mapsto> json_dumps rt (Some 2) c2 @ [newline]),
                dirs = dirs ?fs1 \<union> set (prefixes (parent CONTROL_FILE))\<rparr>)"
    by (rule atomic_write_ok [OF writable_mkdir [OF w CONTROL_FILE_nonempty] CONTROL_FILE_nonempty])
  have "enqueue_command rt env fs cmd =
      (Inr c2, \<lparr>files = (files ?fs1)(CONTROL_FILE \<mapsto> json_dumps rt (Some 2) c2 @ [newline]),
                dirs = dirs ?fs1 \<union> set (prefixes (parent CONTROL_FILE))\<rparr>)"
    by (simp only: enqueue_command_def md l e a aw sum.case prod.case)
  then show ?thesis by simp
qed

subsection \<open>The first command of a queue\<close>

text \<open>
  C9. When the queue file does not exist and the operating system lets the write
  go through, \<open>enqueue_command\<close> raises nothing: it returns the document
  \<open>{"pending": [C]}\<close>, and the queue file holds the text that \<open>json.dumps\<close>
  with \<open>indent=2\<close> gives for that document, followed by a newline.
\<close>

theorem enqueue_command_creates_queue:
  assumes "\<not> path_exists fs CONTROL_FILE" and "writable env fs CONTROL_FILE"
  shows "fst (enqueue_command rt env fs C) = Inr (JObj [(''pending'', JArr [C])]) \<and>
         files (snd (enqueue_command rt env fs C)) CONTROL_FILE =
           Some (json_dumps rt (Some 2) (JObj [(''pending'', JArr [C])]) @ [newline])"
proof -
  let ?fs1 = "fs\<lparr>dirs := dirs fs \<union> set (prefixes (parent CONTROL_FILE))\<rparr>"
  have l: "load_control rt env ?fs1 = Inr (JObj [(''pending'', JArr [])])"
    using assms(1) path_exists_mkdir [OF CONTROL_FILE_nonempty, of fs]
    by (simp add: load_control_def)
  have e: "ensure_pending (JObj [(''pending'', JArr [])]) = Inr (JObj [(''pending'', JArr [])])"
    by (simp add: ensure_pending_def)
  have a: "append_pending (JObj [(''pending'', JArr [])]) C = Inr (JObj [(''pending'', JArr [C])])"
    by (simp add: append_pending_def)
  show ?thesis
    by (simp add: enqueue_command_ok [OF assms(2) l e a])
qed

lemma example_writable_control: "writable example_env empty_fs CONTROL_FILE"
  by (simp add: writable_def example_env_def empty_fs_def CONTROL_FILE_def SCRIPT_DIR_def
      parent_def is_file_def is_dir_def path_exists_def)

theorem enqueue_command_creates_queue_witness:
  "\<not> path_exists empty_fs CONTROL_FILE \<and> writable example_env empty_fs CONTROL_FILE \<and>
   fst (enqueue_command example_runtime example_env empty_fs pause_cmd) =
     Inr (JObj [(''pending'', JArr [pause_cmd])]) \<and>
   files (snd (enqueue_command example_runtime example_env empty_fs pause_cmd)) CONTROL_FILE =
     Some (queue1_text @ [newline])"
proof -
  have p: "\<not> path_exists empty_fs CONTROL_FILE"
    by (simp add: path_exists_def is_file_def is_dir_def empty_fs_def CONTROL_FILE_def SCRIPT_DIR_def)
  have d: "json_dumps example_runtime (Some 2) (JObj [(''pending'', JArr [pause_cmd])]) = queue1_text"
    by (simp add: example_runtime_def table_runtime_def)
  show ?thesis
    using enqueue_command_creates_queue [OF p example_writable_control, of example_runtime pause_cmd]
      p example_writable_control
    by (simp add: d)
qed

subsection \<open>A settings request without a settings file\<close>

text \<open>
  C6. When the settings file does not exist and the request carries a body that
  is not empty, \<open>update_settings\<close> raises nothing and returns
  \<open>{"error": "ralph.conf not found"}\<close>, and the handler answers with status 200
  and the payload \<open>{"ok": true, "error": "ralph.conf not found"}\<close>; the file
  system is unchanged.
\<close>

theorem handle_settings_missing_config:
  assumes "\<not> path_exists fs CONFIG_FILE" and "read_body rt req = Inr b" and "py_truthy b"
  shows "update_settings env fs b = (Inr (JObj [(''error'', JStr ''ralph.conf not found'')]), fs) \<and>
         handle_settings rt env fs req =
           (send_json rt 200 (JObj [(''ok'', JBool True), (''error'', JStr ''ralph.conf not found'')]), fs) \<and>
         status (fst (handle_settings rt env fs req)) = 200"
proof -
  have u: "update_settings env fs b = (Inr (JObj [(''error'', JStr ''ralph.conf not found'')]), fs)"
    using assms(1) by (simp add: update_settings_def)
  have m: "dict_merge [(''ok'', JBool True)] (JObj [(''error'', JStr ''ralph.conf not found'')]) =
             Inr (JObj [(''ok'', JBool True), (''error'', JStr ''ralph.conf not found'')])"
    by (simp add: dict_merge_def)
  have h: "handle_settings rt env fs req =
           (send_json rt 200 (JObj [(''ok'', JBool True), (''error'', JStr ''ralph.conf not found'')]), fs)"
    using assms(2,3) by (simp add: handle_settings_def u m)
  show ?thesis
    by (simp add: u h send_json_def Let_def)
qed

theorem handle_settings_missing_config_witness:
  "\<not> path_exists empty_fs CONFIG_FILE \<and>
   read_body example_runtime \<lparr>content_length = Inr 23, rfile = ''{\"RALPH_MODE\": \"debug\"}''\<rparr> =
     Inr (JObj [(''RALPH_MODE'', JStr ''debug'')]) \<and>
   py_truthy (JObj [(''RALPH_MODE'', JStr ''debug'')]) \<and>
   update_settings example_env empty_fs (JObj [(''RALPH_MODE'', JStr ''debug'')]) =
     (Inr (JObj [(''error'', JStr ''ralph.conf not found'')]), empty_fs) \<and>
   status (fst (handle_settings example_runtime example_env empty_fs
     \<lparr>content_length = Inr 23, rfile = ''{\"RALPH_MODE\": \"debug\"}''\<rparr>)) = 200 \<and>
   body (fst (handle_settings example_runtime example_env empty_fs
     \<lparr>content_length = Inr 23, rfile = ''{\"RALPH_MODE\": \"debug\"}''\<rparr>)) =
     ''{\"ok\": true, \"error\": \"ralph.conf not found\"}''"
proof -
  let ?req = "\<lparr>content_length = Inr 23, rfile = ''{\"RALPH_MODE\": \"debug\"}''\<rparr>"
  have p: "\<not> path_exists empty_fs CONFIG_FILE"
    by (simp add: path_exists_def is_file_def is_dir_def empty_fs_def CONFIG_FILE_def SCRIPT_DIR_def)
  have r: "read_body example_runtime ?req = Inr (JObj [(''RALPH_MODE'', JStr ''debug'')])"
    by (simp add: read_body_def example_runtime_def table_runtime_def queue1_text_def newline_def)
  have t: "py_truthy (JObj [(''RALPH_MODE'', JStr ''debug'')])"
    by simp
  have d: "json_dumps example_runtime None (JObj [(''ok'', JBool True), (''error'', JStr ''ralph.conf not found'')]) =
      ''{\"ok\": true, \"error\": \"ralph.conf not found\"}''"
    by (simp add: example_runtime_def table_runtime_def)
  show ?thesis
    using handle_settings_missing_config [OF p r t, of example_env] p r
    by (simp add: send_json_def Let_def d)
qed

subsection \<open>A queue file that does not parse\<close>

lemma mkdir_parents_ok:
  assumes "mkdir_fault env = None" and "\<not> list_ex (is_file fs) (prefixes d)"
  shows "mkdir_parents env fs d = Inr (fs\<lparr>dirs := dirs fs \<union> set (prefixes d)\<rparr>)"
  using assms by (simp add: mkdir_parents_def)

lemma load_control_existing:
  assumes "files fs CONTROL_FILE = Some text" and "read_fault env = None"
  shows "load_control rt env (fs\<lparr>dirs := D\<rparr>) = json_loads rt (universal_newlines text)"
  using assms by (simp add: load_control_def path_exists_def is_file_def read_text_def)

lemma enqueue_command_decode_error:
  assumes "mkdir_fault env = None"
    and "\<not> list_ex (is_file fs) (prefixes (parent CONTROL_FILE))"
    and "files fs CONTROL_FILE = Some text"
    and "read_fault env = None"
    and "json_loads rt (universal_newlines text) = Inl e"
  shows "enqueue_command rt env fs cmd =
           (Inl e, fs\<lparr>dirs := dirs fs \<union> set (prefixes (parent CONTROL_FILE))\<rparr>)"
  by (simp only: enqueue_command_def mkdir_parents_ok [OF assms(1,2)]
      load_control_existing [OF assms(3,4)] assms(5) sum.case)

text \<open>
  C3. When the queue file exists and \<open>json.load\<close> raises \<open>JSONDecodeError\<close> on
  it, \<open>enqueue_command\<close> raises that exception and every file is left as it
  was. In \<open>_handle_command\<close> the clause \<open>except json.JSONDecodeError\<close> comes
  first and catches it: the answer is status 400 with
  \<open>{"error": "Invalid JSON"}\<close>, where an internal error would be status 500.
\<close>

theorem handle_command_corrupt_queue:
  assumes "read_body rt req = Inr b"
    and "py_in ''command'' b = Inr True"
    and "mkdir_fault env = None"
    and "\<not> list_ex (is_file fs) (prefixes (parent CONTROL_FILE))"
    and "files fs CONTROL_FILE = Some text"
    and "read_fault env = None"
    and "json_loads rt (universal_newlines text) = Inl JSONDecodeError"
  shows "fst (enqueue_command rt env fs b) = Inl JSONDecodeError \<and>
         fst (handle_command rt env fs req) =
           send_json rt 400 (JObj [(''error'', JStr ''Invalid JSON'')]) \<and>
         status (fst (handle_command rt env fs req)) = 400 \<and>
         files (snd (handle_command rt env fs req)) = files fs"
proof -
  note eq = enqueue_command_decode_error [OF assms(3-7), of b]
  have h: "handle_command rt env fs req =
      (send_json rt 400 (JObj [(''error'', JStr ''Invalid JSON'')]),
       fs\<lparr>dirs := dirs fs \<union> set (prefixes (parent CONTROL_FILE))\<rparr>)"
    by (simp add: handle_command_def assms(1,2) eq on_exception_def)
  show ?thesis
    by (simp add: eq h send_json_def Let_def)
qed

theorem handle_command_corrupt_queue_witness:
  "read_body example_runtime pause_request = Inr pause_cmd \<and>
   py_in ''command'' pause_cmd = Inr True \<and>
   files corrupt_fs CONTROL_FILE = Some ''{\"pending\": ['' \<and>
   json_loads example_runtime (universal_newlines ''{\"pending\": ['') = Inl JSONDecodeError \<and>
   fst (enqueue_command example_runtime example_env corrupt_fs pause_cmd) = Inl JSONDecodeError \<and>
   status (fst (handle_command example_runtime example_env corrupt_fs pause_request)) = 400 \<and>
   body (fst (handle_command example_runtime example_env corrupt_fs pause_request)) =
     ''{\"error\": \"Invalid JSON\"}'' \<and>
   status (fst (handle_command example_runtime example_env corrupt_fs pause_request)) \<noteq> 500 \<and>
   files (snd (handle_command example_runtime example_env corrupt_fs pause_request)) = files corrupt_fs"
proof -
  have r: "read_body example_runtime pause_request = Inr pause_cmd"
    by (simp add: read_body_def pause_request_def example_runtime_def table_runtime_def)
  have i: "py_in ''command'' pause_cmd = Inr True"
    by (simp add: pause_cmd_def)
  have m: "mkdir_fault example_env = None" and rd: "read_fault example_env = None"
    by (simp_all add: example_env_def)
  have d: "\<not> list_ex (is_file corrupt_fs) (prefixes (parent CONTROL_FILE))"
    by (simp add: corrupt_fs_def parent_def CONTROL_FILE_def SCRIPT_DIR_def is_file_def)
  have f: "files corrupt_fs CONTROL_FILE = Some ''{\"pending\": [''"
    by (simp add: corrupt_fs_def)
  have l: "json_loads example_runtime (universal_newlines ''{\"pending\": ['') = Inl JSONDecodeError"
    by (simp add: example_runtime_def table_runtime_def queue1_text_def newline_def
        carriage_return_def)
  have b: "json_dumps example_runtime None (JObj [(''error'', JStr ''Invalid JSON'')]) =
      ''{\"error\": \"Invalid JSON\"}''"
    by (simp add: example_runtime_def table_runtime_def)
  note t = handle_command_corrupt_queue [OF r i m d f rd l]
  have s: "body (fst (handle_command example_runtime example_env corrupt_fs pause_request)) =
     ''{\"error\": \"Invalid JSON\"}''"
    using t by (simp add: send_json_def Let_def b)
  from t have t1: "fst (enqueue_command example_runtime example_env corrupt_fs pause_cmd) = Inl JSONDecodeError"
    and t3: "status (fst (handle_command example_runtime example_env corrupt_fs pause_request)) = 400"
    and t4: "files (snd (handle_command example_runtime example_env corrupt_fs pause_request)) = files corrupt_fs"
    by blast+
  have n: "status (fst (handle_command example_runtime example_env corrupt_fs pause_request)) \<noteq> 500"
    by (simp add: t3)
  show ?thesis
    using r i f l t1 t3 s n t4 by (intro conjI)
qed

subsection \<open>Enqueuing twice\<close>

lemma enqueue_step:
  assumes "pending_of (JObj kvs) = Some xs"
  shows "\<exists>c1. ensure_pending (JObj kvs) = Inr c1 \<and>
           append_pending c1 C = Inr (JObj (AList.update ''pending'' (JArr (xs @ [C])) kvs))"
proof (cases "''pending'' \<in> fst ` set kvs")
  case True
  then have "map_of kvs ''pending'' \<noteq> None"
    by (simp add: map_of_eq_None_iff)
  with assms have m: "map_of kvs ''pending'' = Some (JArr xs)"
    by (auto split: option.splits json.splits)
  have "ensure_pending (JObj kvs) = Inr (JObj kvs)"
    using True by (simp add: ensure_pending_def)
  moreover have "append_pending (JObj kvs) C = Inr (JObj (AList.update ''pending'' (JArr (xs @ [C])) kvs))"
    by (simp add: append_pending_def m)
  ultimately show ?thesis by blast
next
  case False
  then have m: "map_of kvs ''pending'' = None"
    by (simp add: map_of_eq_None_iff)
  with assms have xs: "xs = []" by simp
  have "ensure_pending (JObj kvs) = Inr (JObj (AList.update ''pending'' (JArr []) kvs))"
    using False by (simp add: ensure_pending_def)
  moreover have "append_pending (JObj (AList.update ''pending'' (JArr []) kvs)) C =
      Inr (JObj (AList.update ''pending'' (JArr (xs @ [C])) kvs))"
    by (simp add: append_pending_def xs update_conv')
  ultimately show ?thesis by blast
qed

lemma pending_of_update:
  "pending_of (JObj (AList.update ''pending'' (JArr ys) kvs)) = Some ys"
  by (simp add: update_conv')

lemma enqueue_command_existing:
  assumes w: "writable env fs CONTROL_FILE"
    and r: "read_fault env = None"
    and f: "files fs CONTROL_FILE = Some text"
    and l: "json_loads rt (universal_newlines text) = Inr (JObj kvs)"
    and p: "pending_of (JObj kvs) = Some xs"
  shows "enqueue_command rt env fs C =
           (Inr (JObj (AList.update ''pending'' (JArr (xs @ [C])) kvs)),
            \<lparr>files = (files fs)(CONTROL_FILE \<mapsto>
                 json_dumps rt (Some 2) (JObj (AList.update ''pending'' (JArr (xs @ [C])) kvs)) @ [newline]),
             dirs = dirs fs \<union> set (prefixes (parent CONTROL_FILE))\<rparr>)"
proof -
  from enqueue_step [OF p, of C] obtain c1 where
    e: "ensure_pending (JObj kvs) = Inr c1" and
    a: "append_pending c1 C = Inr (JObj (AList.update ''pending'' (JArr (xs @ [C])) kvs))"
    by blast
  have lc: "load_control rt env (fs\<lparr>dirs := dirs fs \<union> set (prefixes (parent CONTROL_FILE))\<rparr>) =
      Inr (JObj kvs)"
    by (simp add: load_control_existing [OF f r] l)
  show ?thesis
    by (rule enqueue_command_ok [OF w lc e a])
qed

lemma tmp_name_not_control: "parent CONTROL_FILE @ [''tmp'' @ r @ ''.tmp''] \<noteq> CONTROL_FILE"
  by (simp add: parent_def CONTROL_FILE_def SCRIPT_DIR_def)

lemma writable_after_enqueue:
  assumes "writable env fs CONTROL_FILE"
  shows "writable env \<lparr>files = (files fs)(CONTROL_FILE \<mapsto> t),
                        dirs = dirs fs \<union> set (prefixes (parent CONTROL_FILE))\<rparr> CONTROL_FILE"
proof -
  have a: "CONTROL_FILE \<notin> set (prefixes (parent CONTROL_FILE))"
    using parent_not_self [of CONTROL_FILE] CONTROL_FILE_nonempty by blast
  have b: "\<And>r. parent CONTROL_FILE @ [''tmp'' @ r @ ''.tmp''] \<notin> set (prefixes (parent CONTROL_FILE))"
    by (rule not_prefix_child)
  show ?thesis
    using assms a b tmp_name_not_control
    by (auto simp: writable_def list_ex_iff path_exists_def is_file_def is_dir_def)
qed

text \<open>
  C2. Let the queue file hold a document with the \<open>pending\<close> sequence \<open>xs\<close>, let
  both writes go through, and let \<open>json.load\<close> read back from the file what
  \<open>json.dumps\<close> wrote after the first call. Then the second \<open>enqueue_command\<close> of \<open>C\<close> returns
  the document whose \<open>pending\<close> sequence is \<open>xs\<close> followed by \<open>C\<close> twice, every
  other key as it was, and the queue file holds that document.
\<close>

theorem enqueue_command_twice:
  assumes "writable env1 fs CONTROL_FILE" and "read_fault env1 = None"
    and "writable env2 fs CONTROL_FILE" and "read_fault env2 = None"
    and "files fs CONTROL_FILE = Some text"
    and "json_loads rt (universal_newlines text) = Inr (JObj kvs)"
    and "pending_of (JObj kvs) = Some xs"
    and "json_loads rt (universal_newlines (json_dumps rt (Some 2)
           (JObj (AList.update ''pending'' (JArr (xs @ [C])) kvs)) @ [newline])) =
         Inr (JObj (AList.update ''pending'' (JArr (xs @ [C])) kvs))"
  shows "fst (enqueue_command rt env2 (snd (enqueue_command rt env1 fs C)) C) =
           Inr (JObj (AList.update ''pending'' (JArr (xs @ [C, C])) kvs)) \<and>
         pending_of (JObj (AList.update ''pending'' (JArr (xs @ [C, C])) kvs)) = Some (xs @ [C, C]) \<and>
         files (snd (enqueue_command rt env2 (snd (enqueue_command rt env1 fs C)) C)) CONTROL_FILE =
           Some (json_dumps rt (Some 2)
                   (JObj (AList.update ''pending'' (JArr (xs @ [C, C])) kvs)) @ [newline])"
proof -
  let ?d1 = "JObj (AList.update ''pending'' (JArr (xs @ [C])) kvs)"
  let ?fs1 = "\<lparr>files = (files fs)(CONTROL_FILE \<mapsto> json_dumps rt (Some 2) ?d1 @ [newline]),
               dirs = dirs fs \<union> set (prefixes (parent CONTROL_FILE))\<rparr>"
  have first: "enqueue_command rt env1 fs C = (Inr ?d1, ?fs1)"
    by (rule enqueue_command_existing [OF assms(1,2,5,6,7)])
  have w2: "writable env2 ?fs1 CONTROL_FILE"
    by (rule writable_after_enqueue [OF assms(3)])
  have f1: "files ?fs1 CONTROL_FILE = Some (json_dumps rt (Some 2) ?d1 @ [newline])"
    by simp
  have p1: "pending_of ?d1 = Some (xs @ [C])"
    by (rule pending_of_update)
  have second: "enqueue_command rt env2 ?fs1 C =
      (Inr (JObj (AList.update ''pending'' (JArr ((xs @ [C]) @ [C])) (AList.update ''pending'' (JArr (xs @ [C])) kvs))),
       \<lparr>files = (files ?fs1)(CONTROL_FILE \<mapsto> json_dumps rt (Some 2)
            (JObj (AList.update ''pending'' (JArr ((xs @ [C]) @ [C])) (AList.update ''pending'' (JArr (xs @ [C])) kvs))) @ [newline]),
        dirs = dirs ?fs1 \<union> set (prefixes (parent CONTROL_FILE))\<rparr>)"
    by (rule enqueue_command_existing [OF w2 assms(4) f1 assms(8) p1])
  show ?thesis
    by (simp add: first second update_conv')
qed

theorem enqueue_command_twice_witness:
  "writable example_env queue0_fs CONTROL_FILE \<and> read_fault example_env = None \<and>
   files queue0_fs CONTROL_FILE = Some ''{\"pending\": []}'' \<and>
   json_loads example_runtime (universal_newlines ''{\"pending\": []}'') =
     Inr (JObj [(''pending'', JArr [])]) \<and>
   pending_of (JObj [(''pending'', JArr [])]) = Some [] \<and>
   json_loads example_runtime (universal_newlines (json_dumps example_runtime (Some 2)
       (JObj [(''pending'', JArr [pause_cmd])]) @ [newline])) =
     Inr (JObj [(''pending'', JArr [pause_cmd])]) \<and>
   fst (enqueue_command example_runtime example_env
          (snd (enqueue_command example_runtime example_env queue0_fs pause_cmd)) pause_cmd) =
     Inr (JObj [(''pending'', JArr [pause_cmd, pause_cmd])]) \<and>
   files (snd (enqueue_command example_runtime example_env
          (snd (enqueue_command example_runtime example_env queue0_fs pause_cmd)) pause_cmd))
       CONTROL_FILE = Some (queue2_text @ [newline])"
proof -
  have w: "writable example_env queue0_fs CONTROL_FILE"
    by (simp add: writable_def example_env_def queue0_fs_def CONTROL_FILE_def SCRIPT_DIR_def
        parent_def is_file_def is_dir_def path_exists_def)
  have r: "read_fault example_env = None"
    by (simp add: example_env_def)
  have f: "files queue0_fs CONTROL_FILE = Some ''{\"pending\": []}''"
    by (simp add: queue0_fs_def)
  have l: "json_loads example_runtime (universal_newlines ''{\"pending\": []}'') =
      Inr (JObj [(''pending'', JArr [])])"
    by (simp add: example_runtime_def table_runtime_def carriage_return_def)
  have p: "pending_of (JObj [(''pending'', JArr [])]) = Some []"
    by simp
  have d1: "json_dumps example_runtime (Some 2) (JObj [(''pending'', JArr [pause_cmd])]) = queue1_text"
    by (simp add: example_runtime_def table_runtime_def)
  have d2: "json_dumps example_runtime (Some 2) (JObj [(''pending'', JArr [pause_cmd, pause_cmd])]) = queue2_text"
    by (simp add: example_runtime_def table_runtime_def pause_cmd_def)
  have un: "universal_newlines (queue1_text @ [newline]) = queue1_text @ [newline]"
    by code_simp
  have rt: "json_loads example_runtime (universal_newlines (json_dumps example_runtime (Some 2)
       (JObj [(''pending'', JArr [pause_cmd])]) @ [newline])) =
     Inr (JObj [(''pending'', JArr [pause_cmd])])"
    unfolding d1 un
    by (simp add: example_runtime_def table_runtime_def queue1_text_def newline_def)
  have rt': "json_loads example_runtime (universal_newlines (json_dumps example_runtime (Some 2)
       (JObj (AList.update ''pending'' (JArr ([] @ [pause_cmd])) [(''pending'', JArr [])])) @ [newline])) =
     Inr (JObj (AList.update ''pending'' (JArr ([] @ [pause_cmd])) [(''pending'', JArr [])]))"
    using rt by simp
  from enqueue_command_twice [OF w r w r f l p rt']
  have t1: "fst (enqueue_command example_runtime example_env
          (snd (enqueue_command example_runtime example_env queue0_fs pause_cmd)) pause_cmd) =
     Inr (JObj [(''pending'', JArr [pause_cmd, pause_cmd])])"
    and t2: "files (snd (enqueue_command example_runtime example_env
          (snd (enqueue_command example_runtime example_env queue0_fs pause_cmd)) pause_cmd))
       CONTROL_FILE = Some (queue2_text @ [newline])"
    by (simp_all add: d2)
  show ?thesis
    using w r f l p rt t1 t2 by (intro conjI)
qed

subsection \<open>The matcher on the two patterns\<close>

lemma lits_match:
  "rx_match ml (lits s) (g, b, r) =
     (if prefix s r then [(g, rev s @ b, drop (length s) r)] else [])"
proof (induction s arbitrary: b r)
  case Nil
  then show ?case by simp
next
  case (Cons c s)
  show ?case
  proof (cases r)
    case Nil
    then show ?thesis by simp
  next
    case (Cons x xs)
    then show ?thesis by (simp add: Cons.IH)
  qed
qed

lemma rx_match_Dot: "rx_match ml Dot = one_char (\<lambda>x. x \<noteq> newline)"
  by (rule ext) simp

lemma rx_match_CharSet: "rx_match ml (CharSet rs) = one_char (in_ranges rs)"
  by (rule ext) simp

lemma star_dot_eol:
  "length r \<le> n \<Longrightarrow>
   concat (map (rx_match True Eol) (greedy_star (one_char (\<lambda>x. x \<noteq> newline)) n (g, b, r))) =
     [(g, rev (takeWhile (\<lambda>x. x \<noteq> newline) r) @ b, dropWhile (\<lambda>x. x \<noteq> newline) r)]"
proof (induction n arbitrary: b r)
  case 0
  then show ?case by simp
next
  case (Suc n)
  show ?case
  proof (cases r)
    case Nil
    then show ?thesis by simp
  next
    case (Cons x xs)
    with Suc.prems have "length xs \<le> n" by simp
    from Suc.IH [OF this, of "x # b"] Cons show ?thesis by simp
  qed
qed

lemma star_class_eol:
  assumes "\<not> P newline"
  shows "length r \<le> n \<Longrightarrow>
   concat (map (rx_match False Eol) (greedy_star (one_char P) n (g, b, r))) =
     (if dropWhile P r = [] \<or> dropWhile P r = [newline]
      then [(g, rev (takeWhile P r) @ b, dropWhile P r)] else [])"
proof (induction n arbitrary: b r)
  case 0
  then show ?case by simp
next
  case (Suc n)
  show ?case
  proof (cases r)
    case Nil
    then show ?thesis by simp
  next
    case (Cons x xs)
    with Suc.prems have "length xs \<le> n" by simp
    note ih = Suc.IH [OF this, of "x # b"]
    show ?thesis
    proof (cases "P x")
      case True
      with assms have "x \<noteq> newline" by auto
      with True Cons show ?thesis by (simp add: ih)
    next
      case False
      with Cons assms show ?thesis by auto
    qed
  qed
qed

lemma key_match:
  assumes "newline \<notin> set key"
  shows "rx_match True (key_pattern key) (Map.empty, b, r) =
     (if (b = [] \<or> hd b = newline) \<and> prefix (key @ ''='') r
      then [([1 \<mapsto> key @ ''=''],
             rev (takeWhile (\<lambda>x. x \<noteq> newline) r) @ b,
             dropWhile (\<lambda>x. x \<noteq> newline) r)]
      else [])"
proof (cases "(b = [] \<or> hd b = newline) \<and> prefix (key @ ''='') r")
  case False
  then show ?thesis
    by (auto simp: key_pattern_def lits_match)
next
  case True
  then obtain r2 where r: "r = (key @ ''='') @ r2"
    by (auto simp: prefix_def)
  have nl: "\<forall>x\<in>set (key @ ''=''). x \<noteq> newline"
    using assms by (auto simp: newline_def)
  have tw: "takeWhile (\<lambda>x. x \<noteq> newline) r = (key @ ''='') @ takeWhile (\<lambda>x. x \<noteq> newline) r2"
    unfolding r using nl by (intro takeWhile_append2) auto
  have dw: "dropWhile (\<lambda>x. x \<noteq> newline) r = dropWhile (\<lambda>x. x \<noteq> newline) r2"
    unfolding r using nl by (simp add: dropWhile_append2)
  show ?thesis
    using True
    by (simp add: key_pattern_def lits_match rx_match_Dot star_dot_eol tw dw) (simp add: r)
qed

lemma newline_not_value_char: "\<not> value_char newline"
  by (simp add: value_char_def in_ranges_def value_chars_def newline_def)

lemma value_match_iff:
  "re_match False VALUE_RE s \<noteq> None \<longleftrightarrow>
     (\<exists>w. w \<noteq> [] \<and> list_all value_char w \<and> (s = w \<or> s = w @ [newline]))"
proof (cases s)
  case Nil
  then show ?thesis
    by (simp add: re_match_def VALUE_RE_def)
next
  case (Cons x xs)
  show ?thesis
  proof (cases "value_char x")
    case False
    have "re_match False VALUE_RE s = None"
      using False Cons
      by (simp add: re_match_def VALUE_RE_def value_char_def)
    moreover have "\<not> (\<exists>w. w \<noteq> [] \<and> list_all value_char w \<and> (s = w \<or> s = w @ [newline]))"
      using False Cons by (auto simp: neq_Nil_conv)
    ultimately show ?thesis by simp
  next
    case True
    have m: "rx_match False VALUE_RE (Map.empty, [], s) =
        (if dropWhile value_char xs = [] \<or> dropWhile value_char xs = [newline]
         then [(Map.empty, rev (takeWhile value_char xs) @ [x], dropWhile value_char xs)] else [])"
      using True Cons star_class_eol [of value_char xs "length xs" Map.empty "[x]"]
        newline_not_value_char
      by (simp add: VALUE_RE_def rx_match_CharSet value_char_def [abs_def])
    have l: "re_match False VALUE_RE s \<noteq> None \<longleftrightarrow>
        dropWhile value_char xs = [] \<or> dropWhile value_char xs = [newline]"
      by (simp add: re_match_def m)
    show ?thesis
    proof
      assume "re_match False VALUE_RE s \<noteq> None"
      with l consider "dropWhile value_char xs = []" | "dropWhile value_char xs = [newline]"
        by blast
      then show "\<exists>w. w \<noteq> [] \<and> list_all value_char w \<and> (s = w \<or> s = w @ [newline])"
      proof cases
        case 1
        then have "list_all value_char (x # xs)"
          using True by (simp add: list_all_iff dropWhile_eq_Nil_conv)
        then show ?thesis using Cons by blast
      next
        case 2
        have "xs = takeWhile value_char xs @ [newline]"
          using takeWhile_dropWhile_id [of value_char xs] 2 by simp
        moreover have "list_all value_char (x # takeWhile value_char xs)"
          using True by (auto simp: list_all_iff dest: set_takeWhileD)
        ultimately show ?thesis
          using Cons by (intro exI [of _ "x # takeWhile value_char xs"]) simp
      qed
    next
      assume "\<exists>w. w \<noteq> [] \<and> list_all value_char w \<and> (s = w \<or> s = w @ [newline])"
      then obtain w where w: "w \<noteq> []" "list_all value_char w" "s = w \<or> s = w @ [newline]"
        by blast
      from w(3) show "re_match False VALUE_RE s \<noteq> None"
      proof
        assume "s = w"
        with w(2) Cons have "dropWhile value_char xs = []"
          by (auto simp: list_all_iff)
        with l show ?thesis by simp
      next
        assume sw: "s = w @ [newline]"
        with w(1) Cons obtain w' where "w = x # w'" "xs = w' @ [newline]"
          by (cases w) auto
        with w(2) have "dropWhile value_char xs = [newline]"
          using newline_not_value_char by (simp add: list_all_iff dropWhile_append2)
        with l show ?thesis by simp
      qed
    qed
  qed
qed

declare sub_from.simps [simp del]

lemma sub_from_end:
  "rx_match ml rx (Map.empty, b, []) = [] \<Longrightarrow> sub_from ml rx tmpl False b [] = []"
  by (subst sub_from.simps) simp

lemma sub_from_copy:
  "rx_match ml rx (Map.empty, b, c # cs) = [] \<Longrightarrow>
   sub_from ml rx tmpl False b (c # cs) = c # sub_from ml rx tmpl False (c # b) cs"
  by (subst sub_from.simps) simp

lemma sub_from_replace:
  "rx_match ml rx (Map.empty, b, r) = [(g, b', r')] \<Longrightarrow> length r' < length r \<Longrightarrow>
   sub_from ml rx tmpl False b r = expand tmpl g @ sub_from ml rx tmpl False b' r'"
  by (subst sub_from.simps) simp

lemma prefix_line:
  assumes "newline \<notin> set p" and "takeWhile (\<lambda>x. x \<noteq> newline) rest = []"
  shows "prefix p (l @ rest) \<longleftrightarrow> prefix p l"
proof
  assume "prefix p (l @ rest)"
  then have "prefix p l \<or> (\<exists>us. p = l @ us \<and> prefix us rest)"
    by (simp add: prefix_append)
  then show "prefix p l"
  proof
    assume "prefix p l" then show ?thesis .
  next
    assume "\<exists>us. p = l @ us \<and> prefix us rest"
    then obtain us where us: "p = l @ us" "prefix us rest" by blast
    show ?thesis
    proof (cases us)
      case Nil
      with us show ?thesis by simp
    next
      case (Cons u us')
      with us(2) obtain rest' where "rest = u # rest'"
        by (cases rest) auto
      with assms(2) have "u = newline" by (simp split: if_splits)
      with us(1) Cons assms(1) show ?thesis by simp
    qed
  qed
next
  assume "prefix p l"
  then show "prefix p (l @ rest)" by (rule prefix_prefix)
qed

lemma key_eq_no_newline: "newline \<notin> set key \<Longrightarrow> newline \<notin> set (key @ ''='')"
  by (simp add: newline_def)

lemma key_match_newline:
  assumes "newline \<notin> set key"
  shows "rx_match True (key_pattern key) (Map.empty, b, newline # R) = []"
  using assms by (auto simp: key_match prefix_Cons append_eq_Cons_conv newline_def)

lemma key_match_end:
  assumes "newline \<notin> set key"
  shows "rx_match True (key_pattern key) (Map.empty, b, []) = []"
  using assms by (simp add: key_match)

lemma key_match_midline:
  assumes "newline \<notin> set key" and "b \<noteq> []" and "hd b \<noteq> newline"
  shows "rx_match True (key_pattern key) (Map.empty, b, r) = []"
  using assms by (simp add: key_match)

lemma sub_midline:
  assumes k: "newline \<notin> set key"
  shows "b \<noteq> [] \<Longrightarrow> hd b \<noteq> newline \<Longrightarrow> newline \<notin> set l \<Longrightarrow>
    sub_from True (key_pattern key) tmpl False b (l @ rest) =
      l @ sub_from True (key_pattern key) tmpl False (rev l @ b) rest"
proof (induction l arbitrary: b)
  case Nil
  then show ?case by simp
next
  case (Cons c l)
  have "sub_from True (key_pattern key) tmpl False b ((c # l) @ rest) =
        c # sub_from True (key_pattern key) tmpl False (c # b) (l @ rest)"
    using key_match_midline [OF k Cons.prems(1,2)] by (simp add: sub_from_copy)
  also have "sub_from True (key_pattern key) tmpl False (c # b) (l @ rest) =
        l @ sub_from True (key_pattern key) tmpl False (rev l @ c # b) rest"
    using Cons.prems by (intro Cons.IH) auto
  finally show ?case by simp
qed

lemma sub_line:
  assumes k: "newline \<notin> set key"
    and b: "b = [] \<or> hd b = newline"
    and l: "newline \<notin> set l"
    and rest: "takeWhile (\<lambda>x. x \<noteq> newline) rest = []"
  shows "sub_from True (key_pattern key) (replacement v) False b (l @ rest) =
      quoted key v l @ sub_from True (key_pattern key) (replacement v) False (rev l @ b) rest"
proof (cases "prefix (key @ ''='') l")
  case True
  then have ne: "l \<noteq> []" by auto
  have p: "prefix (key @ ''='') (l @ rest)"
    using True by (rule prefix_prefix)
  have tw: "takeWhile (\<lambda>x. x \<noteq> newline) (l @ rest) = l"
    using l rest by (subst takeWhile_append2) auto
  have dw: "dropWhile (\<lambda>x. x \<noteq> newline) (l @ rest) = rest"
    using l rest takeWhile_dropWhile_id [of "\<lambda>x. x \<noteq> newline" rest]
    by (subst dropWhile_append2) auto
  have m: "rx_match True (key_pattern key) (Map.empty, b, l @ rest) =
      [([1 \<mapsto> key @ ''=''], rev l @ b, rest)]"
    using b p by (simp add: key_match [OF k] tw dw)
  have "sub_from True (key_pattern key) (replacement v) False b (l @ rest) =
      expand (replacement v) [1 \<mapsto> key @ ''=''] @
      sub_from True (key_pattern key) (replacement v) False (rev l @ b) rest"
    using ne by (intro sub_from_replace [OF m]) simp
  then show ?thesis
    using True by (simp add: quoted_def expand_def replacement_def)
next
  case False
  then have np: "\<not> prefix (key @ ''='') (l @ rest)"
    using prefix_line [OF key_eq_no_newline [OF k] rest] by simp
  show ?thesis
  proof (cases l)
    case Nil
    then show ?thesis by (simp add: quoted_def)
  next
    case (Cons c l')
    have m: "rx_match True (key_pattern key) (Map.empty, b, c # l' @ rest) = []"
      using np Cons by (simp add: key_match [OF k])
    have "sub_from True (key_pattern key) (replacement v) False b (l @ rest) =
        c # sub_from True (key_pattern key) (replacement v) False (c # b) (l' @ rest)"
      using Cons by (simp add: sub_from_copy [OF m])
    also have "sub_from True (key_pattern key) (replacement v) False (c # b) (l' @ rest) =
        l' @ sub_from True (key_pattern key) (replacement v) False (rev l' @ c # b) rest"
      using l Cons by (intro sub_midline [OF k]) auto
    finally show ?thesis
      using False Cons by (simp add: quoted_def)
  qed
qed

lemma sub_from_newline:
  assumes "newline \<notin> set key"
  shows "sub_from True (key_pattern key) tmpl False b (newline # R) =
      newline # sub_from True (key_pattern key) tmpl False (newline # b) R"
  by (rule sub_from_copy [OF key_match_newline [OF assms]])

lemma sub_lines:
  assumes k: "newline \<notin> set key"
  shows "\<forall>l\<in>set ls. newline \<notin> set l \<Longrightarrow> b = [] \<or> hd b = newline \<Longrightarrow>
    sub_from True (key_pattern key) (replacement v) False b (join [newline] ls) =
      join [newline] (map (quoted key v) ls)"
proof (induction "[newline]" ls arbitrary: b rule: join.induct)
  case 1
  then show ?case
    by (simp add: sub_from_end [OF key_match_end [OF k]])
next
  case (2 x)
  have "sub_from True (key_pattern key) (replacement v) False b (x @ []) =
      quoted key v x @ sub_from True (key_pattern key) (replacement v) False (rev x @ b) []"
    using 2 by (intro sub_line [OF k]) auto
  then show ?case
    by (simp add: sub_from_end [OF key_match_end [OF k]])
next
  case (3 x y ys)
  let ?R = "join [newline] (y # ys)"
  have "sub_from True (key_pattern key) (replacement v) False b (x @ newline # ?R) =
      quoted key v x @ sub_from True (key_pattern key) (replacement v) False (rev x @ b) (newline # ?R)"
    using 3 by (intro sub_line [OF k]) auto
  also have "sub_from True (key_pattern key) (replacement v) False (rev x @ b) (newline # ?R) =
      newline # sub_from True (key_pattern key) (replacement v) False (newline # rev x @ b) ?R"
    by (rule sub_from_newline [OF k])
  also have "sub_from True (key_pattern key) (replacement v) False (newline # rev x @ b) ?R =
      join [newline] (map (quoted key v) (y # ys))"
    using 3 by (intro "3.hyps") auto
  finally show ?case by simp
qed

declare search_from.simps [simp del]

lemma search_from_copy:
  "rx_match ml rx (Map.empty, b, c # cs) = [] \<Longrightarrow>
   search_from ml rx b (c # cs) = search_from ml rx (c # b) cs"
  by (simp add: search_from.simps)

lemma search_from_end:
  "rx_match ml rx (Map.empty, b, []) = [] \<Longrightarrow> search_from ml rx b [] = None"
  by (simp add: search_from.simps)

lemma search_midline:
  assumes k: "newline \<notin> set key"
  shows "b \<noteq> [] \<Longrightarrow> hd b \<noteq> newline \<Longrightarrow> newline \<notin> set l \<Longrightarrow>
    search_from True (key_pattern key) b (l @ rest) =
      search_from True (key_pattern key) (rev l @ b) rest"
proof (induction l arbitrary: b)
  case Nil
  then show ?case by simp
next
  case (Cons c l)
  have "search_from True (key_pattern key) b ((c # l) @ rest) =
        search_from True (key_pattern key) (c # b) (l @ rest)"
    using key_match_midline [OF k Cons.prems(1,2)] by (simp add: search_from_copy)
  also have "\<dots> = search_from True (key_pattern key) (rev l @ c # b) rest"
    using Cons.prems by (intro Cons.IH) auto
  finally show ?case by simp
qed

lemma search_line:
  assumes k: "newline \<notin> set key"
    and b: "b = [] \<or> hd b = newline"
    and l: "newline \<notin> set l"
    and rest: "takeWhile (\<lambda>x. x \<noteq> newline) rest = []"
  shows "search_from True (key_pattern key) b (l @ rest) \<noteq> None \<longleftrightarrow>
      prefix (key @ ''='') l \<or> search_from True (key_pattern key) (rev l @ b) rest \<noteq> None"
proof (cases "prefix (key @ ''='') l")
  case True
  then obtain c cs where lc: "l @ rest = c # cs" by (cases l) auto
  have p: "prefix (key @ ''='') (l @ rest)"
    using True by (rule prefix_prefix)
  have "rx_match True (key_pattern key) (Map.empty, b, c # cs) \<noteq> []"
    using b p by (simp add: key_match [OF k] lc)
  then have "search_from True (key_pattern key) b (c # cs) \<noteq> None"
    by (auto simp: search_from.simps split: list.splits)
  with True lc show ?thesis by simp
next
  case False
  then have np: "\<not> prefix (key @ ''='') (l @ rest)"
    using prefix_line [OF key_eq_no_newline [OF k] rest] by simp
  show ?thesis
  proof (cases l)
    case Nil
    with False show ?thesis by simp
  next
    case (Cons c l')
    have m: "rx_match True (key_pattern key) (Map.empty, b, c # l' @ rest) = []"
      using np Cons by (simp add: key_match [OF k])
    have "search_from True (key_pattern key) b (l @ rest) =
        search_from True (key_pattern key) (c # b) (l' @ rest)"
      using Cons by (simp add: search_from_copy [OF m])
    also have "\<dots> = search_from True (key_pattern key) (rev l' @ c # b) rest"
      using l Cons by (intro search_midline [OF k]) auto
    finally show ?thesis
      using False Cons by simp
  qed
qed

lemma search_lines:
  assumes k: "newline \<notin> set key"
  shows "\<forall>l\<in>set ls. newline \<notin> set l \<Longrightarrow> b = [] \<or> hd b = newline \<Longrightarrow>
    search_from True (key_pattern key) b (join [newline] ls) \<noteq> None \<longleftrightarrow>
      (\<exists>l\<in>set ls. prefix (key @ ''='') l)"
proof (induction "[newline]" ls arbitrary: b rule: join.induct)
  case 1
  then show ?case
    by (simp add: search_from_end [OF key_match_end [OF k]])
next
  case (2 x)
  have "search_from True (key_pattern key) b (x @ []) \<noteq> None \<longleftrightarrow>
      prefix (key @ ''='') x \<or> search_from True (key_pattern key) (rev x @ b) [] \<noteq> None"
    using 2 by (intro search_line [OF k]) auto
  then show ?case
    by (simp add: search_from_end [OF key_match_end [OF k]])
next
  case (3 x y ys)
  let ?R = "join [newline] (y # ys)"
  have "search_from True (key_pattern key) b (x @ newline # ?R) \<noteq> None \<longleftrightarrow>
      prefix (key @ ''='') x \<or> search_from True (key_pattern key) (rev x @ b) (newline # ?R) \<noteq> None"
    using 3 by (intro search_line [OF k]) auto
  moreover have "search_from True (key_pattern key) (rev x @ b) (newline # ?R) =
      search_from True (key_pattern key) (newline # rev x @ b) ?R"
    by (rule search_from_copy [OF key_match_newline [OF k]])
  moreover have "search_from True (key_pattern key) (newline # rev x @ b) ?R \<noteq> None \<longleftrightarrow>
      (\<exists>l\<in>set (y # ys). prefix (key @ ''='') l)"
    using 3 by (intro "3.hyps") auto
  ultimately show ?case by simp
qed

subsection \<open>Lines of a text\<close>

lemma split_lines_nonempty: "split_lines s \<noteq> []"
  by (induction s) (auto split: list.splits)

lemma split_lines_no_newline: "l \<in> set (split_lines s) \<Longrightarrow> newline \<notin> set l"
proof (induction s arbitrary: l)
  case Nil
  then show ?case by simp
next
  case (Cons c s)
  obtain h t where ht: "split_lines s = h # t"
    using split_lines_nonempty [of s] by (cases "split_lines s") auto
  with Cons show ?case by (auto split: if_splits)
qed

lemma join_Cons: "ys \<noteq> [] \<Longrightarrow> join sep (x # ys) = x @ sep @ join sep ys"
  by (cases ys) auto

lemma join_split_lines: "join [newline] (split_lines s) = s"
proof (induction s)
  case Nil
  then show ?case by simp
next
  case (Cons c s)
  obtain h t where ht: "split_lines s = h # t"
    using split_lines_nonempty [of s] by (cases "split_lines s") auto
  show ?case
  proof (cases "c = newline")
    case True
    with Cons show ?thesis by (simp add: join_Cons split_lines_nonempty)
  next
    case False
    with Cons ht show ?thesis by (cases t) auto
  qed
qed

lemma split_lines_line: "newline \<notin> set l \<Longrightarrow> split_lines l = [l]"
  by (induction l) auto

lemma split_lines_append:
  "split_lines (a @ newline # c) = split_lines a @ split_lines c"
proof (induction a)
  case Nil
  then show ?case by simp
next
  case (Cons x a)
  obtain h t where ht: "split_lines a = h # t"
    using split_lines_nonempty [of a] by (cases "split_lines a") auto
  with Cons show ?case by simp
qed

lemma join_append:
  "xs \<noteq> [] \<Longrightarrow> ys \<noteq> [] \<Longrightarrow> join sep (xs @ ys) = join sep xs @ sep @ join sep ys"
  by (induction sep xs rule: join.induct) (auto simp: join_Cons)

lemma split_lines_join:
  "ls \<noteq> [] \<Longrightarrow> split_lines (join [newline] ls) = concat (map split_lines ls)"
  by (induction "[newline]" ls rule: join.induct) (auto simp: split_lines_append)

subsection \<open>Substitution and search, line by line\<close>

lemma re_sub_lines:
  assumes "newline \<notin> set key"
  shows "re_sub True (key_pattern key) (replacement v) s =
           join [newline] (map (quoted key v) (split_lines s))"
  using sub_lines [OF assms, of "split_lines s" "[]" v] split_lines_no_newline [of _ s]
  by (simp add: re_sub_def join_split_lines)

lemma re_search_lines:
  assumes "newline \<notin> set key"
  shows "re_search True (key_pattern key) s \<noteq> None \<longleftrightarrow>
           (\<exists>l\<in>set (split_lines s). prefix (key @ ''='') l)"
  using search_lines [OF assms, of "split_lines s" "[]"] split_lines_no_newline [of _ s]
  by (simp add: re_search_def join_split_lines)

lemma re_sub_no_match:
  assumes "newline \<notin> set key" and "re_search True (key_pattern key) s = None"
  shows "re_sub True (key_pattern key) (replacement v) s = s"
proof -
  have "\<forall>l\<in>set (split_lines s). \<not> prefix (key @ ''='') l"
    using re_search_lines [OF assms(1), of s] assms(2) by simp
  then have "map (quoted key v) (split_lines s) = split_lines s"
    by (simp add: quoted_def map_idI)
  then show ?thesis
    by (simp add: re_sub_lines [OF assms(1)] join_split_lines)
qed

lemma re_sub_append:
  assumes "newline \<notin> set key"
  shows "re_sub True (key_pattern key) (replacement v) (a @ newline # c) =
           re_sub True (key_pattern key) (replacement v) a @ newline #
           re_sub True (key_pattern key) (replacement v) c"
  by (simp add: re_sub_lines [OF assms] split_lines_append join_append split_lines_nonempty)

lemma re_sub_empty:
  assumes "newline \<notin> set key"
  shows "re_sub True (key_pattern key) (replacement v) [] = []"
  by (simp add: re_sub_lines [OF assms] quoted_def)

lemma re_sub_join:
  assumes "newline \<notin> set key"
  shows "re_sub True (key_pattern key) (replacement v) (join [newline] ls) =
           join [newline] (map (re_sub True (key_pattern key) (replacement v)) ls)"
  by (induction "[newline]" ls rule: join.induct)
     (simp_all add: re_sub_empty [OF assms] re_sub_append [OF assms])

lemma re_sub_line:
  assumes "newline \<notin> set key" and "newline \<notin> set l"
  shows "re_sub True (key_pattern key) (replacement v) l = quoted key v l"
  by (simp add: re_sub_lines [OF assms(1)] split_lines_line [OF assms(2)])

lemma allowed_key_chars:
  assumes "key \<in> set ALLOWED_SETTINGS"
  shows "newline \<notin> set key" and "CHR ''='' \<notin> set key"
  using assms by (auto simp: ALLOWED_SETTINGS_def newline_def)

lemma settings_loop_skip:
  "key \<notin> set ALLOWED_SETTINGS \<or> re_match False VALUE_RE (py_str val) = None \<Longrightarrow>
   settings_loop ((key, val) # rest) content updated = settings_loop rest content updated"
  by (auto simp: Let_def)

lemma settings_loop_miss:
  "key \<in> set ALLOWED_SETTINGS \<Longrightarrow> re_match False VALUE_RE (py_str val) \<noteq> None \<Longrightarrow>
   re_search True (key_pattern key) content = None \<Longrightarrow>
   settings_loop ((key, val) # rest) content updated = settings_loop rest content updated"
  by (simp add: Let_def del: not_None_eq)

lemma settings_loop_hit:
  "key \<in> set ALLOWED_SETTINGS \<Longrightarrow> re_match False VALUE_RE (py_str val) \<noteq> None \<Longrightarrow>
   re_search True (key_pattern key) content \<noteq> None \<Longrightarrow>
   settings_loop ((key, val) # rest) content updated =
     settings_loop rest (re_sub True (key_pattern key) (replacement (py_str val)) content)
       (updated @ [key])"
  by (simp add: Let_def del: not_None_eq)

lemma loop_content_join:
  "fst (settings_loop items (join [newline] ls) u) =
     join [newline] (map (rewrite_line items) ls)"
proof (induction items arbitrary: ls u)
  case Nil
  then show ?case by (simp add: map_idI)
next
  case (Cons item items)
  obtain key val where item: "item = (key, val)" by (cases item)
  let ?c = "join [newline] ls"
  show ?case
  proof (cases "key \<in> set ALLOWED_SETTINGS \<and> re_match False VALUE_RE (py_str val) \<noteq> None")
    case False
    then have "settings_loop (item # items) ?c u = settings_loop items ?c u"
      unfolding item by (intro settings_loop_skip) blast
    moreover have "rewrite_line (item # items) = rewrite_line items"
      using False by (auto simp: item)
    ultimately show ?thesis
      using Cons.IH [of ls u] by simp
  next
    case True
    then have a: "key \<in> set ALLOWED_SETTINGS" and m: "re_match False VALUE_RE (py_str val) \<noteq> None"
      by blast+
    have k: "newline \<notin> set key" using a by (rule allowed_key_chars)
    let ?sub = "re_sub True (key_pattern key) (replacement (py_str val))"
    have "\<exists>u'. settings_loop (item # items) ?c u = settings_loop items (?sub ?c) u'"
    proof (cases "re_search True (key_pattern key) ?c = None")
      case True
      then have "settings_loop (item # items) ?c u = settings_loop items (?sub ?c) u"
        unfolding item settings_loop_miss [OF a m True] by (simp only: re_sub_no_match [OF k True])
      then show ?thesis ..
    next
      case False
      have "settings_loop (item # items) ?c u = settings_loop items (?sub ?c) (u @ [key])"
        unfolding item by (rule settings_loop_hit [OF a m False])
      then show ?thesis ..
    qed
    then obtain u' where "settings_loop (item # items) ?c u = settings_loop items (?sub ?c) u'"
      by blast
    then have "fst (settings_loop (item # items) ?c u) =
        fst (settings_loop items (join [newline] (map ?sub ls)) u')"
      by (simp only: re_sub_join [OF k])
    also have "\<dots> = join [newline] (map (rewrite_line items) (map ?sub ls))"
      by (rule Cons.IH)
    also have "map (rewrite_line items) (map ?sub ls) = map (rewrite_line (item # items)) ls"
      using a m by (simp add: item del: not_None_eq)
    finally show ?thesis .
  qed
qed

lemma loop_content:
  "fst (settings_loop items content u) =
     join [newline] (map (rewrite_line items) (split_lines content))"
  using loop_content_join [of items "split_lines content" u]
  by (simp add: join_split_lines)

subsection \<open>The loop on one line\<close>

declare settings_loop.simps(2) [simp del]
declare rewrite_line.simps(2) [simp del]

lemma rewrite_line_skip:
  "key \<notin> set ALLOWED_SETTINGS \<or> re_match False VALUE_RE (py_str val) = None \<Longrightarrow>
   rewrite_line ((key, val) # rest) l = rewrite_line rest l"
  by (auto simp: rewrite_line.simps)

lemma rewrite_line_step:
  "key \<in> set ALLOWED_SETTINGS \<Longrightarrow> re_match False VALUE_RE (py_str val) \<noteq> None \<Longrightarrow>
   rewrite_line ((key, val) # rest) l =
     rewrite_line rest (re_sub True (key_pattern key) (replacement (py_str val)) l)"
  by (simp add: rewrite_line.simps del: not_None_eq)

lemma prefix_key_unique:
  assumes "CHR ''='' \<notin> set k" and "CHR ''='' \<notin> set k'"
    and "prefix (k @ ''='') l" and "prefix (k' @ ''='') l"
  shows "k = k'"
proof -
  from assms(3) obtain r where r: "l = k @ CHR ''='' # r"
    by (auto simp: prefix_def)
  from assms(4) obtain r' where r': "l = k' @ CHR ''='' # r'"
    by (auto simp: prefix_def)
  have "takeWhile (\<lambda>c. c \<noteq> CHR ''='') l = k"
    unfolding r using assms(1) by (auto simp: takeWhile_tail)
  moreover have "takeWhile (\<lambda>c. c \<noteq> CHR ''='') l = k'"
    unfolding r' using assms(2) by (auto simp: takeWhile_tail)
  ultimately show ?thesis by simp
qed

lemma quoted_other:
  assumes "CHR ''='' \<notin> set k" and "CHR ''='' \<notin> set k'" and "k \<noteq> k'"
    and "prefix (k @ ''='') l"
  shows "quoted k' v l = l"
  using assms prefix_key_unique [of k k' l] by (auto simp: quoted_def)

lemma not_allowed_line:
  "\<not> allowed_line l \<Longrightarrow> key \<in> set ALLOWED_SETTINGS \<Longrightarrow> \<not> prefix (key @ ''='') l"
  by (auto simp: allowed_line_def list_ex_iff)

lemma rewrite_line_not_allowed:
  assumes "newline \<notin> set l" and "\<not> allowed_line l"
  shows "rewrite_line items l = l"
proof (induction items)
  case Nil
  then show ?case by simp
next
  case (Cons item items)
  obtain key val where item: "item = (key, val)" by (cases item)
  show ?case
  proof (cases "key \<in> set ALLOWED_SETTINGS \<and> re_match False VALUE_RE (py_str val) \<noteq> None")
    case False
    then show ?thesis
      unfolding item using Cons.IH by (subst rewrite_line_skip) blast+
  next
    case True
    then have a: "key \<in> set ALLOWED_SETTINGS" and m: "re_match False VALUE_RE (py_str val) \<noteq> None"
      by blast+
    have "re_sub True (key_pattern key) (replacement (py_str val)) l = l"
      using not_allowed_line [OF assms(2) a]
      by (simp add: re_sub_line [OF allowed_key_chars(1) [OF a] assms(1)] quoted_def)
    then show ?thesis
      unfolding item rewrite_line_step [OF a m] using Cons.IH by simp
  qed
qed

lemma rewrite_line_other:
  assumes "newline \<notin> set l" and "prefix (key @ ''='') l" and "CHR ''='' \<notin> set key"
  shows "key \<notin> fst ` set items \<Longrightarrow> rewrite_line items l = l"
proof (induction items)
  case Nil
  then show ?case by simp
next
  case (Cons item items)
  obtain k' v' where item: "item = (k', v')" by (cases item)
  from Cons.prems have ne: "key \<noteq> k'" and rest: "key \<notin> fst ` set items"
    by (auto simp: item)
  show ?case
  proof (cases "k' \<in> set ALLOWED_SETTINGS \<and> re_match False VALUE_RE (py_str v') \<noteq> None")
    case False
    then show ?thesis
      unfolding item using Cons.IH [OF rest] by (subst rewrite_line_skip) blast+
  next
    case True
    then have a: "k' \<in> set ALLOWED_SETTINGS" and m: "re_match False VALUE_RE (py_str v') \<noteq> None"
      by blast+
    have "re_sub True (key_pattern k') (replacement (py_str v')) l = l"
      using quoted_other [OF assms(3) allowed_key_chars(2) [OF a] ne assms(2)]
      by (simp add: re_sub_line [OF allowed_key_chars(1) [OF a] assms(1)])
    then show ?thesis
      unfolding item rewrite_line_step [OF a m] using Cons.IH [OF rest] by simp
  qed
qed

lemma value_char_not_newline: "list_all value_char v \<Longrightarrow> newline \<notin> set v"
  using newline_not_value_char by (auto simp: list_all_iff)

lemma strict_value_match:
  "v \<noteq> [] \<Longrightarrow> list_all value_char v \<Longrightarrow> re_match False VALUE_RE v \<noteq> None"
  unfolding value_match_iff by blast

lemma rewrite_line_key:
  assumes a: "key \<in> set ALLOWED_SETTINGS"
    and v: "py_str val \<noteq> []" "list_all value_char (py_str val)"
    and l: "newline \<notin> set l" "prefix (key @ ''='') l"
  shows "distinct (map fst items) \<Longrightarrow> (key, val) \<in> set items \<Longrightarrow>
    rewrite_line items l = key @ ''='' @ [dquote] @ py_str val @ [dquote]"
proof (induction items)
  case Nil
  then show ?case by simp
next
  case (Cons item items)
  obtain k' v' where item: "item = (k', v')" by (cases item)
  note kc = allowed_key_chars [OF a]
  show ?case
  proof (cases "item = (key, val)")
    case True
    let ?q = "key @ ''='' @ [dquote] @ py_str val @ [dquote]"
    have m: "re_match False VALUE_RE (py_str val) \<noteq> None"
      using v by (rule strict_value_match)
    have s: "re_sub True (key_pattern key) (replacement (py_str val)) l = ?q"
      using l(2) by (simp add: re_sub_line [OF kc(1) l(1)] quoted_def)
    have nq: "newline \<notin> set ?q"
      using kc(1) value_char_not_newline [OF v(2)] by (simp add: dquote_def newline_def)
    have pq: "prefix (key @ ''='') ?q"
      by simp
    have "key \<notin> fst ` set items"
      using Cons.prems(1) True by auto
    from rewrite_line_other [OF nq pq kc(2) this] show ?thesis
      unfolding True rewrite_line_step [OF a m] s .
  next
    case False
    with Cons.prems have mem: "(key, val) \<in> set items" and d: "distinct (map fst items)"
      by auto
    then have ne: "key \<noteq> k'"
      using Cons.prems(1) by (force simp: item)
    show ?thesis
    proof (cases "k' \<in> set ALLOWED_SETTINGS \<and> re_match False VALUE_RE (py_str v') \<noteq> None")
      case False
      then show ?thesis
        unfolding item using Cons.IH [OF d mem] by (subst rewrite_line_skip) blast+
    next
      case True
      then have a': "k' \<in> set ALLOWED_SETTINGS" and m': "re_match False VALUE_RE (py_str v') \<noteq> None"
        by blast+
      have "re_sub True (key_pattern k') (replacement (py_str v')) l = l"
        using quoted_other [OF kc(2) allowed_key_chars(2) [OF a'] ne l(2)]
        by (simp add: re_sub_line [OF allowed_key_chars(1) [OF a'] l(1)])
      then show ?thesis
        unfolding item rewrite_line_step [OF a' m'] using Cons.IH [OF d mem] by simp
    qed
  qed
qed

lemma settings_loop_cases:
  "settings_loop ((k, v) # items) c u = settings_loop items c u \<or>
   (k \<in> set ALLOWED_SETTINGS \<and>
    settings_loop ((k, v) # items) c u =
      settings_loop items (re_sub True (key_pattern k) (replacement (py_str v)) c) (u @ [k]))"
proof (cases "k \<notin> set ALLOWED_SETTINGS \<or> re_match False VALUE_RE (py_str v) = None")
  case True
  then show ?thesis by (simp only: settings_loop_skip) simp
next
  case False
  then have a: "k \<in> set ALLOWED_SETTINGS" and m: "re_match False VALUE_RE (py_str v) \<noteq> None"
    by blast+
  show ?thesis
  proof (cases "re_search True (key_pattern k) c = None")
    case True
    then show ?thesis by (simp only: settings_loop_miss [OF a m]) simp
  next
    case False
    show ?thesis using a settings_loop_hit [OF a m False] by blast
  qed
qed

lemma loop_updated_mono: "set u \<subseteq> set (snd (settings_loop items c u))"
proof (induction items arbitrary: c u)
  case Nil
  then show ?case by simp
next
  case (Cons item items)
  obtain key val where item: "item = (key, val)" by (cases item)
  have "settings_loop (item # items) c u = settings_loop items c u \<or>
        settings_loop (item # items) c u =
          settings_loop items (re_sub True (key_pattern key) (replacement (py_str val)) c) (u @ [key])"
    unfolding item by (simp add: settings_loop.simps Let_def del: not_None_eq)
  then show ?case
    using Cons.IH [of u c]
      Cons.IH [of "u @ [key]" "re_sub True (key_pattern key) (replacement (py_str val)) c"]
    by auto
qed

lemma has_line_re_sub:
  assumes k: "key \<in> set ALLOWED_SETTINGS" and k': "k' \<in> set ALLOWED_SETTINGS" and ne: "key \<noteq> k'"
    and h: "\<exists>l\<in>set (split_lines c). prefix (key @ ''='') l"
  shows "\<exists>l\<in>set (split_lines (re_sub True (key_pattern k') (replacement v) c)). prefix (key @ ''='') l"
proof -
  from h obtain l where l: "l \<in> set (split_lines c)" "prefix (key @ ''='') l" by blast
  have nl: "newline \<notin> set l" using l(1) by (rule split_lines_no_newline)
  have q: "quoted k' v l = l"
    by (rule quoted_other [OF allowed_key_chars(2) [OF k] allowed_key_chars(2) [OF k'] ne l(2)])
  have "split_lines (re_sub True (key_pattern k') (replacement v) c) =
      concat (map split_lines (map (quoted k' v) (split_lines c)))"
    by (simp add: re_sub_lines [OF allowed_key_chars(1) [OF k']] split_lines_join split_lines_nonempty)
  moreover have "l \<in> set (concat (map split_lines (map (quoted k' v) (split_lines c))))"
    using l(1) q split_lines_line [OF nl] by (auto intro!: bexI [of _ l])
  ultimately show ?thesis using l(2) by auto
qed

lemma loop_updated_key:
  assumes a: "key \<in> set ALLOWED_SETTINGS" and m: "re_match False VALUE_RE (py_str val) \<noteq> None"
  shows "distinct (map fst items) \<Longrightarrow> (key, val) \<in> set items \<Longrightarrow>
    \<exists>l\<in>set (split_lines c). prefix (key @ ''='') l \<Longrightarrow>
    key \<in> set (snd (settings_loop items c u))"
proof (induction items arbitrary: c u)
  case Nil
  then show ?case by simp
next
  case (Cons item items)
  obtain k' v' where item: "item = (k', v')" by (cases item)
  show ?case
  proof (cases "item = (key, val)")
    case True
    have s: "re_search True (key_pattern key) c \<noteq> None"
      using Cons.prems(3) re_search_lines [OF allowed_key_chars(1) [OF a], of c] by blast
    show ?thesis
      unfolding True settings_loop_hit [OF a m s]
      using loop_updated_mono [of "u @ [key]" items] by auto
  next
    case False
    with Cons.prems have mem: "(key, val) \<in> set items" and d: "distinct (map fst items)"
      by auto
    then have ne: "key \<noteq> k'"
      using Cons.prems(1) by (force simp: item)
    consider (skip) "settings_loop (item # items) c u = settings_loop items c u"
      | (hit) "k' \<in> set ALLOWED_SETTINGS" "settings_loop (item # items) c u =
          settings_loop items (re_sub True (key_pattern k') (replacement (py_str v')) c) (u @ [k'])"
      unfolding item using settings_loop_cases [of k' v' items c u] by blast
    then show ?thesis
    proof cases
      case skip
      then show ?thesis using Cons.IH [OF d mem Cons.prems(3)] by simp
    next
      case hit
      from has_line_re_sub [OF a hit(1) ne Cons.prems(3)]
      show ?thesis unfolding hit(2) by (rule Cons.IH [OF d mem])
    qed
  qed
qed

lemma loop_nothing:
  "\<forall>(k, v)\<in>set items. k \<notin> set ALLOWED_SETTINGS \<or> re_match False VALUE_RE (py_str v) = None \<or>
      \<not> (\<exists>l\<in>set (split_lines c). prefix (k @ ''='') l) \<Longrightarrow>
   settings_loop items c u = (c, u)"
proof (induction items)
  case Nil
  then show ?case by simp
next
  case (Cons item items)
  obtain key val where item: "item = (key, val)" by (cases item)
  from Cons.prems have rest: "\<forall>(k, v)\<in>set items. k \<notin> set ALLOWED_SETTINGS \<or>
      re_match False VALUE_RE (py_str v) = None \<or> \<not> (\<exists>l\<in>set (split_lines c). prefix (k @ ''='') l)"
    by simp
  from Cons.prems have here: "key \<notin> set ALLOWED_SETTINGS \<or>
      re_match False VALUE_RE (py_str val) = None \<or> \<not> (\<exists>l\<in>set (split_lines c). prefix (key @ ''='') l)"
    by (simp add: item)
  have "settings_loop (item # items) c u = settings_loop items c u"
  proof (cases "key \<notin> set ALLOWED_SETTINGS \<or> re_match False VALUE_RE (py_str val) = None")
    case True
    then show ?thesis unfolding item by (rule settings_loop_skip)
  next
    case False
    then have a: "key \<in> set ALLOWED_SETTINGS" and m: "re_match False VALUE_RE (py_str val) \<noteq> None"
      by blast+
    with here have "re_search True (key_pattern key) c = None"
      using re_search_lines [OF allowed_key_chars(1) [OF a], of c] by blast
    then show ?thesis unfolding item by (rule settings_loop_miss [OF a m])
  qed
  then show ?case using Cons.IH [OF rest] by simp
qed

lemma loop_filter_allowed:
  "settings_loop (filter (\<lambda>(k, v). k \<in> set ALLOWED_SETTINGS) items) c u = settings_loop items c u"
proof (induction items arbitrary: c u)
  case Nil
  then show ?case by simp
next
  case (Cons item items)
  obtain key val where item: "item = (key, val)" by (cases item)
  show ?case
  proof (cases "key \<in> set ALLOWED_SETTINGS")
    case True
    then show ?thesis
      by (simp add: item settings_loop.simps Cons.IH Let_def del: not_None_eq)
  next
    case False
    then show ?thesis
      by (simp add: item settings_loop_skip Cons.IH)
  qed
qed

subsection \<open>The target of a write\<close>

lemma write_text_Inr:
  "write_text env fs p data = (Inr u, fs3) \<Longrightarrow> files fs3 = (files fs)(p \<mapsto> data)"
  by (auto simp: write_text_def split: option.splits prod.splits)

lemma unlink_and_reraise_target:
  "unlink_and_reraise env fs3 tmp e = (r, fs') \<Longrightarrow> p \<noteq> tmp \<Longrightarrow>
   (\<exists>e'. r = Inl e') \<and> files fs' p = files fs3 p"
  by (auto simp: unlink_and_reraise_def os_unlink_def split: sum.splits option.splits if_splits)

lemma os_replace_Inr:
  "os_replace env fs3 tmp p = Inr fs4 \<Longrightarrow> files fs4 p = files fs3 tmp"
  by (auto simp: os_replace_def split: option.splits if_splits)

lemma atomic_write_target:
  assumes "files fs p \<noteq> None"
  shows "(\<exists>e. fst (atomic_write env fs p data) = Inl e \<and>
              files (snd (atomic_write env fs p data)) p = files fs p) \<or>
         (fst (atomic_write env fs p data) = Inr () \<and>
              files (snd (atomic_write env fs p data)) p = Some data)"
proof (cases "mkdir_parents env fs (parent p)")
  case (Inl e)
  then show ?thesis by (simp add: atomic_write_def)
next
  case (Inr fs1)
  then have f1: "files fs1 = files fs" using mkdir_parents_files by blast
  show ?thesis
  proof (cases "mkstemp env fs1 (parent p) ''.tmp''")
    case (Inl e)
    then show ?thesis using Inr f1 by (simp add: atomic_write_def)
  next
    case (Inr pr)
    obtain tmp fs2 where pr: "pr = (tmp, fs2)" by (cases pr)
    have f2: "files fs1 tmp = None" "files fs2 = (files fs1)(tmp \<mapsto> [])"
      using mkstemp_Inr [of env fs1 "parent p" "''.tmp''" tmp fs2] Inr pr by simp_all
    have ne: "p \<noteq> tmp" using assms f1 f2(1) by auto
    obtain r fs3 where w: "write_text env fs2 tmp data = (r, fs3)"
      by (cases "write_text env fs2 tmp data")
    have f3: "files fs3 p = files fs p"
      using write_text_files [OF w] ne f2(2) f1 by simp
    show ?thesis
    proof (cases r)
      case (Inl e)
      obtain r' fs' where u: "unlink_and_reraise env fs3 tmp e = (r', fs')"
        by (cases "unlink_and_reraise env fs3 tmp e")
      have "atomic_write env fs p data = (r', fs')"
        using \<open>mkdir_parents env fs (parent p) = Inr fs1\<close> Inr pr w Inl u
        by (simp add: atomic_write_def)
      then show ?thesis
        using unlink_and_reraise_target [OF u ne] f3 by auto
    next
      case (Inr x)
      have f3t: "files fs3 tmp = Some data"
        using write_text_Inr [of env fs2 tmp data x fs3] w Inr by simp
      show ?thesis
      proof (cases "os_replace env fs3 tmp p")
        case (Inl e)
        obtain r' fs' where u: "unlink_and_reraise env fs3 tmp e = (r', fs')"
          by (cases "unlink_and_reraise env fs3 tmp e")
        have "atomic_write env fs p data = (r', fs')"
          using \<open>mkdir_parents env fs (parent p) = Inr fs1\<close>
            \<open>mkstemp env fs1 (parent p) ''.tmp'' = Inr pr\<close> pr w Inr Inl u
          by (simp add: atomic_write_def)
        then show ?thesis
          using unlink_and_reraise_target [OF u ne] f3 by auto
      next
        case (Inr fs4)
        have "atomic_write env fs p data = (Inr (), fs4)"
          using \<open>mkdir_parents env fs (parent p) = Inr fs1\<close>
            \<open>mkstemp env fs1 (parent p) ''.tmp'' = Inr pr\<close> pr w \<open>r = Inr x\<close> Inr
          by (simp add: atomic_write_def)
        then show ?thesis
          using os_replace_Inr [OF Inr] f3t by simp
      qed
    qed
  qed
qed

subsection \<open>Failure of \<open>atomic_write\<close> before the replace step\<close>





subsection \<open>What a reader of the target can see\<close>

lemma mkstemp_name:
  "mkstemp env fs d sfx = Inr (tmp, fs2) \<Longrightarrow> \<exists>r. tmp = d @ [''tmp'' @ r @ sfx]"
  by (auto simp: mkstemp_def split: option.splits if_splits dest!: find_SomeD)

lemma tmp_name_not_config: "parent CONFIG_FILE @ [''tmp'' @ r @ ''.tmp''] \<noteq> CONFIG_FILE"
  by (simp add: parent_def CONFIG_FILE_def SCRIPT_DIR_def)

lemma write_trace_files:
  "s \<in> set (write_trace env fs p data) \<Longrightarrow> q \<noteq> p \<Longrightarrow> files s q = files fs q"
  by (auto simp: write_trace_def)

lemma take_min_length: "take (min n (length xs)) xs = take n xs"
  by (cases "n \<le> length xs") (simp_all add: min_def)

lemma last_write_trace:
  "write_trace env fs p data \<noteq> [] \<and>
   last (write_trace env fs p data) = snd (write_text env fs p data)"
  by (simp add: write_trace_def write_text_def take_min_length del: upt_Suc split: option.splits)
    (simp add: last_map take_min_length)

lemma unlink_trace_files:
  "s \<in> set (unlink_trace env fs tmp) \<Longrightarrow> q \<noteq> tmp \<Longrightarrow> files s q = files fs q"
  by (auto simp: unlink_trace_def os_unlink_def split: sum.splits option.splits if_splits)

lemma last_unlink_trace:
  "xs \<noteq> [] \<Longrightarrow> last xs = fs3 \<Longrightarrow>
   last (xs @ unlink_trace env fs3 tmp) = snd (unlink_and_reraise env fs3 tmp e)"
  by (auto simp: unlink_trace_def unlink_and_reraise_def split: sum.splits)

lemma trace_target:
  assumes "files fs p \<noteq> None \<or> (\<forall>r. parent p @ [''tmp'' @ r @ ''.tmp''] \<noteq> p)"
  shows "(\<forall>s\<in>set (atomic_write_trace env fs p data).
            files s p = files fs p \<or> files s p = Some data) \<and>
         hd (atomic_write_trace env fs p data) = fs \<and>
         last (atomic_write_trace env fs p data) = snd (atomic_write env fs p data)"
proof (cases "mkdir_parents env fs (parent p)")
  case (Inl e)
  then show ?thesis by (simp add: atomic_write_def atomic_write_trace_def)
next
  case md: (Inr fs1)
  then have f1: "files fs1 = files fs" using mkdir_parents_files by blast
  show ?thesis
  proof (cases "mkstemp env fs1 (parent p) ''.tmp''")
    case (Inl e)
    then show ?thesis using md f1 by (simp add: atomic_write_def atomic_write_trace_def)
  next
    case (Inr pr)
    obtain tmp fs2 where pr: "pr = (tmp, fs2)" by (cases pr)
    have mt: "mkstemp env fs1 (parent p) ''.tmp'' = Inr (tmp, fs2)" using Inr pr by simp
    have f2: "files fs1 tmp = None" "files fs2 = (files fs1)(tmp \<mapsto> [])"
      using mkstemp_Inr [OF mt] by simp_all
    have ne: "p \<noteq> tmp"
    proof
      assume e: "p = tmp"
      obtain r where "tmp = parent p @ [''tmp'' @ r @ ''.tmp'']"
        using mkstemp_name [OF mt] by blast
      then have "parent p @ [''tmp'' @ r @ ''.tmp''] = p"
        using e by (simp only:)
      moreover have "files fs p = None"
        using e f1 f2(1) by (simp only:)
      ultimately show False
        using assms by blast
    qed
    have f2p: "files fs2 p = files fs p" using f1 f2(2) ne by simp
    obtain r fs3 where w: "write_text env fs2 tmp data = (r, fs3)"
      by (cases "write_text env fs2 tmp data")
    have f3: "files fs3 p = files fs p"
      using write_text_files [OF w] ne f2p by simp
    have wt: "\<forall>s\<in>set (write_trace env fs2 tmp data). files s p = files fs p"
      using write_trace_files [of _ env fs2 tmp data p] ne f2p by simp
    have ut: "\<forall>s\<in>set (unlink_trace env fs3 tmp). files s p = files fs p"
      using unlink_trace_files [of _ env fs3 tmp p] ne f3 by simp
    have lw: "write_trace env fs2 tmp data \<noteq> []" "last (write_trace env fs2 tmp data) = fs3"
      using last_write_trace [of env fs2 tmp data] w by simp_all
    let ?pre = "fs # fs1 # fs2 # write_trace env fs2 tmp data"
    have pre: "\<forall>s\<in>set ?pre. files s p = files fs p" "?pre \<noteq> []" "last ?pre = fs3" "hd ?pre = fs"
      using f1 f2p wt lw by simp_all
    show ?thesis
    proof (cases r)
      case (Inl e)
      have aw: "atomic_write env fs p data = unlink_and_reraise env fs3 tmp e"
        using md mt w Inl by (simp add: atomic_write_def)
      have tr: "atomic_write_trace env fs p data = ?pre @ unlink_trace env fs3 tmp"
        using md mt w Inl by (simp add: atomic_write_trace_def)
      show ?thesis
        unfolding tr aw using pre ut last_unlink_trace [OF pre(2,3), of env tmp e]
        by (auto simp del: last.simps)
    next
      case (Inr x)
      have f3t: "files fs3 tmp = Some data"
        using write_text_Inr [of env fs2 tmp data x fs3] w Inr by simp
      show ?thesis
      proof (cases "os_replace env fs3 tmp p")
        case (Inl e)
        have aw: "atomic_write env fs p data = unlink_and_reraise env fs3 tmp e"
          using md mt w Inr Inl by (simp add: atomic_write_def)
        have tr: "atomic_write_trace env fs p data = ?pre @ unlink_trace env fs3 tmp"
          using md mt w Inr Inl by (simp add: atomic_write_trace_def)
        show ?thesis
          unfolding tr aw using pre ut last_unlink_trace [OF pre(2,3), of env tmp e]
          by (auto simp del: last.simps)
      next
        case rp: (Inr fs4)
        have aw: "atomic_write env fs p data = (Inr (), fs4)"
          using md mt w Inr rp by (simp add: atomic_write_def)
        have tr: "atomic_write_trace env fs p data = ?pre @ [fs4]"
          using md mt w Inr rp by (simp add: atomic_write_trace_def)
        have "\<forall>s\<in>set (?pre @ [fs4]). files s p = files fs p \<or> files s p = Some data"
          using pre(1) os_replace_Inr [OF rp] f3t by auto
        moreover have "hd (?pre @ [fs4]) = fs"
          by simp
        moreover have "last (?pre @ [fs4]) = snd (Inr () :: error + unit, fs4)"
          by (simp only: last_snoc snd_conv)
        ultimately show ?thesis
          by (simp only: tr aw)
      qed
    qed
  qed
qed

text \<open>
  C10. A write of the queue file or of the settings file goes through the
  states of \<open>atomic_write_trace\<close>, from the file system before the call to the
  one \<open>atomic_write\<close> returns. In every one of them, whatever the content and
  whichever system call fails, the target holds what it held before the call
  (or is absent, if it was) or holds the complete new content: a reader of the
  target never sees a part of the new content.
\<close>

theorem atomic_write_no_torn_target:
  assumes "filepath = CONTROL_FILE \<or> filepath = CONFIG_FILE"
  shows "(\<forall>s\<in>set (atomic_write_trace env fs filepath data).
            files s filepath = files fs filepath \<or> files s filepath = Some data) \<and>
         hd (atomic_write_trace env fs filepath data) = fs \<and>
         last (atomic_write_trace env fs filepath data) = snd (atomic_write env fs filepath data)"
proof (rule trace_target)
  show "files fs filepath \<noteq> None \<or>
        (\<forall>r. parent filepath @ [''tmp'' @ r @ ''.tmp''] \<noteq> filepath)"
    using assms tmp_name_not_control tmp_name_not_config by blast
qed

text \<open>
  The theorem at a write of the settings file that goes through: the target
  holds the old text in every state but the last, and the new text in the last.
\<close>

theorem atomic_write_no_torn_target_witness:
  "(CONFIG_FILE = CONTROL_FILE \<or> CONFIG_FILE = CONFIG_FILE) \<and>
   list_all (\<lambda>s. files s CONFIG_FILE = files conf_fs CONFIG_FILE \<or>
                 files s CONFIG_FILE = Some ''RALPH_MODE=\"debug\"\<newline>'')
     (atomic_write_trace example_env conf_fs CONFIG_FILE ''RALPH_MODE=\"debug\"\<newline>'') \<and>
   last (atomic_write_trace example_env conf_fs CONFIG_FILE ''RALPH_MODE=\"debug\"\<newline>'') =
     snd (atomic_write example_env conf_fs CONFIG_FILE ''RALPH_MODE=\"debug\"\<newline>'') \<and>
   map (\<lambda>s. files s CONFIG_FILE)
     (atomic_write_trace example_env conf_fs CONFIG_FILE ''RALPH_MODE=\"debug\"\<newline>'') =
     replicate 23 (Some conf_text) @ [Some ''RALPH_MODE=\"debug\"\<newline>''] \<and>
   map (\<lambda>s. files s [''.ralph'', ''config'', ''tmpk3x9_0ab.tmp''])
     (take 6 (atomic_write_trace example_env conf_fs CONFIG_FILE ''RALPH_MODE=\"debug\"\<newline>'')) =
     [None, None, Some [], Some [], Some ''R'', Some ''RA'']"
proof -
  have a: "CONFIG_FILE = CONTROL_FILE \<or> CONFIG_FILE = CONFIG_FILE"
    by simp
  note t = atomic_write_no_torn_target [OF a, of example_env conf_fs "''RALPH_MODE=\"debug\"\<newline>''"]
  have l: "list_all (\<lambda>s. files s CONFIG_FILE = files conf_fs CONFIG_FILE \<or>
                 files s CONFIG_FILE = Some ''RALPH_MODE=\"debug\"\<newline>'')
     (atomic_write_trace example_env conf_fs CONFIG_FILE ''RALPH_MODE=\"debug\"\<newline>'')"
    using t [THEN conjunct1] by (simp only: list_all_iff)
  have e: "last (atomic_write_trace example_env conf_fs CONFIG_FILE ''RALPH_MODE=\"debug\"\<newline>'') =
     snd (atomic_write example_env conf_fs CONFIG_FILE ''RALPH_MODE=\"debug\"\<newline>'')"
    using t [THEN conjunct2, THEN conjunct2] .
  have m: "map (\<lambda>s. files s CONFIG_FILE)
     (atomic_write_trace example_env conf_fs CONFIG_FILE ''RALPH_MODE=\"debug\"\<newline>'') =
     replicate 23 (Some conf_text) @ [Some ''RALPH_MODE=\"debug\"\<newline>'']"
    by code_simp
  have k: "map (\<lambda>s. files s [''.ralph'', ''config'', ''tmpk3x9_0ab.tmp''])
     (take 6 (atomic_write_trace example_env conf_fs CONFIG_FILE ''RALPH_MODE=\"debug\"\<newline>'')) =
     [None, None, Some [], Some [], Some ''R'', Some ''RA'']"
    by code_simp
  show ?thesis
    using a l e m k by (intro conjI)
qed

subsection \<open>Reading and writing the settings file\<close>

lemma universal_newlines_id:
  "carriage_return \<notin> set s \<Longrightarrow> universal_newlines s = s"
  by (induction s rule: universal_newlines.induct) auto

lemma update_settings_read:
  assumes "files fs CONFIG_FILE = Some content" and "read_fault env = None"
  shows "update_settings env fs (JObj items) =
     (case settings_loop items (universal_newlines content) [] of
        (content', updated) \<Rightarrow>
          if updated \<noteq> [] then
            (case atomic_write env fs CONFIG_FILE content' of
               (Inl e, fs') \<Rightarrow> (Inl e, fs')
             | (Inr u, fs') \<Rightarrow> (Inr (JObj [(''updated'', JArr (map JStr updated))]), fs'))
          else (Inr (JObj [(''updated'', JArr (map JStr updated))]), fs))"
  using assms by (simp add: update_settings_def path_exists_def is_file_def read_text_def)

lemma update_settings_target:
  assumes "files fs CONFIG_FILE = Some content"
  shows "files (snd (update_settings env fs settings)) CONFIG_FILE = Some content \<or>
         (\<exists>items. settings = JObj items \<and>
            files (snd (update_settings env fs settings)) CONFIG_FILE =
              Some (fst (settings_loop items (universal_newlines content) [])))"
proof (cases "read_text env fs CONFIG_FILE")
  case (Inl e)
  then show ?thesis
    using assms by (simp add: update_settings_def path_exists_def is_file_def)
next
  case (Inr c)
  then have c: "c = universal_newlines content" and rf: "read_fault env = None"
    using assms by (auto simp: read_text_def split: option.splits)
  show ?thesis
  proof (cases "py_items settings")
    case (Inl e)
    then show ?thesis
      using assms Inr by (simp add: update_settings_def path_exists_def is_file_def)
  next
    case (Inr items)
    then have s: "settings = JObj items" by (cases settings) auto
    obtain content' updated where
      l: "settings_loop items (universal_newlines content) [] = (content', updated)"
      by (cases "settings_loop items (universal_newlines content) []")
    show ?thesis
    proof (cases "updated = []")
      case True
      then show ?thesis
        using assms by (simp add: s update_settings_read [OF assms rf] l)
    next
      case False
      have "files fs CONFIG_FILE \<noteq> None" using assms by simp
      from atomic_write_target [OF this, of env content']
      show ?thesis
        using False assms
        by (auto simp: s update_settings_read [OF assms rf] l split: prod.splits sum.splits)
    qed
  qed
qed

subsection \<open>A value that ends with a newline\<close>

text \<open>
  C4. Without \<open>re.MULTILINE\<close> the \<open>$\<close> of the value pattern also matches before
  a newline that ends the text. The value \<open>"debug\n"\<close> holds a character outside
  \<open>[A-Za-z0-9_-]\<close>, yet \<open>re.match\<close> accepts it: \<open>update_settings\<close> does not skip
  the key, reports it as updated and writes the newline into the settings file.
  (Every other character outside the class makes the key skipped: see
  \<open>value_match_iff\<close>.)
\<close>

theorem update_settings_trailing_newline:
  "py_str (JStr (''debug'' @ [newline])) = ''debug'' @ [newline] \<and>
   \<not> list_all value_char (''debug'' @ [newline]) \<and>
   re_match False VALUE_RE (''debug'' @ [newline]) \<noteq> None \<and>
   fst (update_settings example_env conf_fs (JObj [(''RALPH_MODE'', JStr (''debug'' @ [newline]))])) =
     Inr (JObj [(''updated'', JArr [JStr ''RALPH_MODE''])]) \<and>
   files (snd (update_settings example_env conf_fs
            (JObj [(''RALPH_MODE'', JStr (''debug'' @ [newline]))]))) CONFIG_FILE =
     Some ''RALPH_MODE=\"debug\<newline>\"\<newline>RALPH_SKIP_PERMISSIONS=\"true\"\<newline>''"
  by code_simp

subsection \<open>Only the lines of the allow-list change\<close>

text \<open>
  C5, as amended. The keys of a payload that are not in the allow-list have no
  effect: \<open>update_settings\<close> gives the same result and the same file system
  without them. And whatever the payload and the faults, the settings file
  afterwards is either what it was, character by character, or the text that
  text mode reads from the old file (every carriage return with a following
  newline, and every other carriage return, read as one newline), line by line,
  where every line that does not start with \<open>KEY=\<close> for a key of the allow-list
  is exactly what it was. A file without carriage returns is read as it is, so
  there these lines are kept character by character.
\<close>

theorem update_settings_allow_list:
  "update_settings env fs (JObj items) =
     update_settings env fs (JObj (filter (\<lambda>(k, v). k \<in> set ALLOWED_SETTINGS) items)) \<and>
   (files fs CONFIG_FILE = Some content \<longrightarrow>
     files (snd (update_settings env fs settings)) CONFIG_FILE = Some content \<or>
     (\<exists>h. (\<forall>l. newline \<notin> set l \<and> \<not> allowed_line l \<longrightarrow> h l = l) \<and>
          files (snd (update_settings env fs settings)) CONFIG_FILE =
            Some (join [newline] (map h (split_lines (universal_newlines content)))))) \<and>
   (carriage_return \<notin> set content \<longrightarrow> universal_newlines content = content)"
proof (intro conjI impI)
  show "update_settings env fs (JObj items) =
     update_settings env fs (JObj (filter (\<lambda>(k, v). k \<in> set ALLOWED_SETTINGS) items))"
    by (simp add: update_settings_def loop_filter_allowed split: sum.splits)
next
  assume f: "files fs CONFIG_FILE = Some content"
  from update_settings_target [OF f, of env settings]
  show "files (snd (update_settings env fs settings)) CONFIG_FILE = Some content \<or>
     (\<exists>h. (\<forall>l. newline \<notin> set l \<and> \<not> allowed_line l \<longrightarrow> h l = l) \<and>
          files (snd (update_settings env fs settings)) CONFIG_FILE =
            Some (join [newline] (map h (split_lines (universal_newlines content)))))"
  proof
    assume "files (snd (update_settings env fs settings)) CONFIG_FILE = Some content"
    then show ?thesis ..
  next
    assume "\<exists>items. settings = JObj items \<and>
        files (snd (update_settings env fs settings)) CONFIG_FILE =
          Some (fst (settings_loop items (universal_newlines content) []))"
    then obtain its where "files (snd (update_settings env fs settings)) CONFIG_FILE =
          Some (fst (settings_loop its (universal_newlines content) []))" by blast
    then have "\<exists>h. (\<forall>l. newline \<notin> set l \<and> \<not> allowed_line l \<longrightarrow> h l = l) \<and>
          files (snd (update_settings env fs settings)) CONFIG_FILE =
            Some (join [newline] (map h (split_lines (universal_newlines content))))"
      by (intro exI [of _ "rewrite_line its"]) (simp add: loop_content rewrite_line_not_allowed)
    then show ?thesis ..
  qed
next
  assume "carriage_return \<notin> set content"
  then show "universal_newlines content = content"
    by (rule universal_newlines_id)
qed

subsection \<open>The line of an allowed key is rewritten\<close>

text \<open>
  C7. Let \<open>key\<close> be in the allow-list, let the text of its value be one or more
  characters of \<open>[A-Za-z0-9_-]\<close>, let the settings file, as text mode reads it,
  have a line that starts with \<open>key=\<close>, and let the write go through. Then \<open>update_settings\<close> returns an
  \<open>updated\<close> sequence that holds \<open>key\<close>, and in the new file every line that
  started with \<open>key=\<close> is \<open>key="value"\<close>: the prefix as it was, the value in
  double quotes.
\<close>

theorem update_settings_rewrites_line:
  assumes "files fs CONFIG_FILE = Some content" and "read_fault env = None"
    and "writable env fs CONFIG_FILE"
    and "distinct (map fst items)" and "(key, val) \<in> set items"
    and "key \<in> set ALLOWED_SETTINGS"
    and "py_str val \<noteq> []" and "list_all value_char (py_str val)"
    and "\<exists>l\<in>set (split_lines (universal_newlines content)). prefix (key @ ''='') l"
  shows "\<exists>h us.
           fst (update_settings env fs (JObj items)) = Inr (JObj [(''updated'', JArr (map JStr us))]) \<and>
           key \<in> set us \<and>
           files (snd (update_settings env fs (JObj items))) CONFIG_FILE =
             Some (join [newline] (map h (split_lines (universal_newlines content)))) \<and>
           (\<forall>l\<in>set (split_lines (universal_newlines content)). prefix (key @ ''='') l \<longrightarrow>
              h l = key @ ''='' @ [dquote] @ py_str val @ [dquote])"
proof -
  obtain content' updated where l: "settings_loop items (universal_newlines content) [] = (content', updated)"
    by (cases "settings_loop items (universal_newlines content) []")
  have m: "re_match False VALUE_RE (py_str val) \<noteq> None"
    using assms(7,8) by (rule strict_value_match)
  have k: "key \<in> set updated"
    using loop_updated_key [OF assms(6) m assms(4,5,9), of "[]"] l by simp
  then have ne: "updated \<noteq> []" by auto
  have c: "content' = join [newline] (map (rewrite_line items) (split_lines (universal_newlines content)))"
    using loop_content [of items "universal_newlines content" "[]"] l by simp
  have u: "update_settings env fs (JObj items) =
      (Inr (JObj [(''updated'', JArr (map JStr updated))]),
       \<lparr>files = (files fs)(CONFIG_FILE \<mapsto> content'),
        dirs = dirs fs \<union> set (prefixes (parent CONFIG_FILE))\<rparr>)"
    using ne
    by (simp add: update_settings_read [OF assms(1,2)] l
        atomic_write_ok [OF assms(3) CONFIG_FILE_nonempty])
  have h: "\<forall>l\<in>set (split_lines (universal_newlines content)). prefix (key @ ''='') l \<longrightarrow>
      rewrite_line items l = key @ ''='' @ [dquote] @ py_str val @ [dquote]"
    using rewrite_line_key [OF assms(6,7,8) split_lines_no_newline _ assms(4,5)] by blast
  show ?thesis
    using k h by (intro exI [of _ "rewrite_line items"] exI [of _ updated]) (simp add: u c)
qed

subsection \<open>No update, no write\<close>

text \<open>
  C8. When \<open>update_settings\<close> returns an empty \<open>updated\<close> sequence, the file
  system is the one it started from: nothing was written. This is so when every
  proposed key is outside the allow-list, has a value the pattern rejects, or
  has no line in the file; the result is then \<open>{"updated": []}\<close>.
\<close>

theorem update_settings_no_update:
  "(fst (update_settings env fs settings) = Inr (JObj [(''updated'', JArr [])]) \<longrightarrow>
      snd (update_settings env fs settings) = fs) \<and>
   (files fs CONFIG_FILE = Some content \<and> read_fault env = None \<and>
    (\<forall>(k, v)\<in>set items.
        k \<notin> set ALLOWED_SETTINGS \<or> re_match False VALUE_RE (py_str v) = None \<or>
        \<not> (\<exists>l\<in>set (split_lines (universal_newlines content)). prefix (k @ ''='') l)) \<longrightarrow>
      update_settings env fs (JObj items) = (Inr (JObj [(''updated'', JArr [])]), fs))"
proof (intro conjI impI)
  assume r: "fst (update_settings env fs settings) = Inr (JObj [(''updated'', JArr [])])"
  show "snd (update_settings env fs settings) = fs"
  proof (rule ccontr)
    assume n: "snd (update_settings env fs settings) \<noteq> fs"
    then obtain c items where c: "read_text env fs CONFIG_FILE = Inr c" and
      i: "py_items settings = Inr items"
      by (auto simp: update_settings_def split: if_splits sum.splits)
    obtain content' updated where l: "settings_loop items c [] = (content', updated)"
      by (cases "settings_loop items c []")
    from n have "updated \<noteq> []"
      by (auto simp: update_settings_def c i l split: if_splits)
    with r show False
      by (auto simp: update_settings_def c i l split: if_splits prod.splits sum.splits)
  qed
next
  assume a: "files fs CONFIG_FILE = Some content \<and> read_fault env = None \<and>
    (\<forall>(k, v)\<in>set items.
        k \<notin> set ALLOWED_SETTINGS \<or> re_match False VALUE_RE (py_str v) = None \<or>
        \<not> (\<exists>l\<in>set (split_lines (universal_newlines content)). prefix (k @ ''='') l))"
  then have l: "settings_loop items (universal_newlines content) [] = (universal_newlines content, [])"
    by (intro loop_nothing) blast
  from a have f: "files fs CONFIG_FILE = Some content" and rf: "read_fault env = None"
    by blast+
  show "update_settings env fs (JObj items) = (Inr (JObj [(''updated'', JArr [])]), fs)"
    by (simp add: update_settings_read [OF f rf] l)
qed

lemma example_writable_config: "writable example_env conf_fs CONFIG_FILE"
  by (simp add: writable_def example_env_def conf_fs_def CONFIG_FILE_def SCRIPT_DIR_def
      parent_def is_file_def is_dir_def path_exists_def)

theorem update_settings_rewrites_line_witness:
  "files conf_fs CONFIG_FILE = Some conf_text \<and> read_fault example_env = None \<and>
   writable example_env conf_fs CONFIG_FILE \<and>
   distinct (map fst example_items) \<and> (''RALPH_MODE'', JStr ''debug'') \<in> set example_items \<and>
   ''RALPH_MODE'' \<in> set ALLOWED_SETTINGS \<and>
   py_str (JStr ''debug'') \<noteq> [] \<and> list_all value_char (py_str (JStr ''debug'')) \<and>
   (\<exists>l\<in>set (split_lines (universal_newlines conf_text)). prefix (''RALPH_MODE'' @ ''='') l) \<and>
   (\<exists>h us.
      fst (update_settings example_env conf_fs (JObj example_items)) =
        Inr (JObj [(''updated'', JArr (map JStr us))]) \<and>
      ''RALPH_MODE'' \<in> set us \<and>
      files (snd (update_settings example_env conf_fs (JObj example_items))) CONFIG_FILE =
        Some (join [newline] (map h (split_lines (universal_newlines conf_text)))) \<and>
      (\<forall>l\<in>set (split_lines (universal_newlines conf_text)). prefix (''RALPH_MODE'' @ ''='') l \<longrightarrow>
         h l = ''RALPH_MODE'' @ ''='' @ [dquote] @ py_str (JStr ''debug'') @ [dquote])) \<and>
   fst (update_settings example_env conf_fs (JObj example_items)) =
     Inr (JObj [(''updated'', JArr [JStr ''RALPH_MODE''])]) \<and>
   files (snd (update_settings example_env conf_fs (JObj example_items))) CONFIG_FILE =
     Some ''RALPH_MODE=\"debug\"\<newline>RALPH_SKIP_PERMISSIONS=\"true\"\<newline>''"
proof -
  have f: "files conf_fs CONFIG_FILE = Some conf_text"
    by (simp add: conf_fs_def)
  have r: "read_fault example_env = None"
    by (simp add: example_env_def)
  have d: "distinct (map fst example_items)"
    by (simp add: example_items_def)
  have i: "(''RALPH_MODE'', JStr ''debug'') \<in> set example_items"
    by (simp add: example_items_def)
  have a: "''RALPH_MODE'' \<in> set ALLOWED_SETTINGS"
    by (simp add: ALLOWED_SETTINGS_def)
  have n: "py_str (JStr ''debug'') \<noteq> []"
    by simp
  have v: "list_all value_char (py_str (JStr ''debug''))"
    by code_simp
  have l: "\<exists>l\<in>set (split_lines (universal_newlines conf_text)). prefix (''RALPH_MODE'' @ ''='') l"
    by code_simp
  note t = update_settings_rewrites_line [OF f r example_writable_config d i a n v l]
  have e1: "fst (update_settings example_env conf_fs (JObj example_items)) =
     Inr (JObj [(''updated'', JArr [JStr ''RALPH_MODE''])])"
    by code_simp
  have e2: "files (snd (update_settings example_env conf_fs (JObj example_items))) CONFIG_FILE =
     Some ''RALPH_MODE=\"debug\"\<newline>RALPH_SKIP_PERMISSIONS=\"true\"\<newline>''"
    by code_simp
  show ?thesis
    using f r example_writable_config d i a n v l t e1 e2 by (intro conjI)
qed

theorem update_settings_allow_list_witness:
  "files conf_fs CONFIG_FILE = Some conf_text \<and>
   carriage_return \<notin> set conf_text \<and>
   update_settings example_env conf_fs (JObj example_items) =
     update_settings example_env conf_fs
       (JObj (filter (\<lambda>(k, v). k \<in> set ALLOWED_SETTINGS) example_items)) \<and>
   (files (snd (update_settings example_env conf_fs (JObj example_items))) CONFIG_FILE =
      Some conf_text \<or>
    (\<exists>h. (\<forall>l. newline \<notin> set l \<and> \<not> allowed_line l \<longrightarrow> h l = l) \<and>
         files (snd (update_settings example_env conf_fs (JObj example_items))) CONFIG_FILE =
           Some (join [newline] (map h (split_lines (universal_newlines conf_text)))))) \<and>
   universal_newlines conf_text = conf_text \<and>
   filter (\<lambda>(k, v). k \<in> set ALLOWED_SETTINGS) example_items = [(''RALPH_MODE'', JStr ''debug'')] \<and>
   split_lines conf_text = [''RALPH_MODE=\"auto\"'', ''RALPH_SKIP_PERMISSIONS=\"true\"'', []] \<and>
   \<not> allowed_line ''RALPH_SKIP_PERMISSIONS=\"true\"'' \<and>
   files (snd (update_settings example_env conf_fs (JObj example_items))) CONFIG_FILE =
     Some ''RALPH_MODE=\"debug\"\<newline>RALPH_SKIP_PERMISSIONS=\"true\"\<newline>''"
proof -
  have f: "files conf_fs CONFIG_FILE = Some conf_text"
    by (simp add: conf_fs_def)
  have c: "carriage_return \<notin> set conf_text"
    by code_simp
  note t = update_settings_allow_list [of example_env conf_fs example_items conf_text "JObj example_items"]
  from t have t1: "update_settings example_env conf_fs (JObj example_items) =
     update_settings example_env conf_fs
       (JObj (filter (\<lambda>(k, v). k \<in> set ALLOWED_SETTINGS) example_items))"
    by (rule conjunct1)
  from t have "files conf_fs CONFIG_FILE = Some conf_text \<longrightarrow>
      files (snd (update_settings example_env conf_fs (JObj example_items))) CONFIG_FILE =
        Some conf_text \<or>
      (\<exists>h. (\<forall>l. newline \<notin> set l \<and> \<not> allowed_line l \<longrightarrow> h l = l) \<and>
         files (snd (update_settings example_env conf_fs (JObj example_items))) CONFIG_FILE =
           Some (join [newline] (map h (split_lines (universal_newlines conf_text)))))"
    by (rule conjunct2 [THEN conjunct1])
  with f have t2: "files (snd (update_settings example_env conf_fs (JObj example_items))) CONFIG_FILE =
        Some conf_text \<or>
      (\<exists>h. (\<forall>l. newline \<notin> set l \<and> \<not> allowed_line l \<longrightarrow> h l = l) \<and>
         files (snd (update_settings example_env conf_fs (JObj example_items))) CONFIG_FILE =
           Some (join [newline] (map h (split_lines (universal_newlines conf_text)))))"
    by (rule rev_mp)
  from t have "carriage_return \<notin> set conf_text \<longrightarrow> universal_newlines conf_text = conf_text"
    by (rule conjunct2 [THEN conjunct2])
  with c have t3: "universal_newlines conf_text = conf_text"
    by (rule rev_mp)
  have e0: "filter (\<lambda>(k, v). k \<in> set ALLOWED_SETTINGS) example_items = [(''RALPH_MODE'', JStr ''debug'')]"
    by code_simp
  have e1: "split_lines conf_text = [''RALPH_MODE=\"auto\"'', ''RALPH_SKIP_PERMISSIONS=\"true\"'', []]"
    by code_simp
  have e2: "\<not> allowed_line ''RALPH_SKIP_PERMISSIONS=\"true\"''"
    by code_simp
  have e3: "files (snd (update_settings example_env conf_fs (JObj example_items))) CONFIG_FILE =
     Some ''RALPH_MODE=\"debug\"\<newline>RALPH_SKIP_PERMISSIONS=\"true\"\<newline>''"
    by code_simp
  show ?thesis
    using f c t1 t2 t3 e0 e1 e2 e3 by (intro conjI)
qed

text \<open>
  Not every line outside the allow-list is kept byte for byte. In a settings
  file whose lines end with a carriage return and a newline, the line
  \<open>FOO="bar"\<close> with its carriage return is not a line of the allow-list; an
  update of \<open>RALPH_MODE\<close> writes it back without the carriage return.
\<close>

theorem update_settings_crlf_counterexample:
  "files crlf_fs CONFIG_FILE = Some crlf_text \<and>
   split_lines crlf_text =
     [''RALPH_MODE=\"auto\"'' @ [carriage_return], ''FOO=\"bar\"'' @ [carriage_return], []] \<and>
   \<not> allowed_line (''FOO=\"bar\"'' @ [carriage_return]) \<and>
   fst (update_settings example_env crlf_fs (JObj example_items)) =
     Inr (JObj [(''updated'', JArr [JStr ''RALPH_MODE''])]) \<and>
   files (snd (update_settings example_env crlf_fs (JObj example_items))) CONFIG_FILE =
     Some ''RALPH_MODE=\"debug\"\<newline>FOO=\"bar\"\<newline>'' \<and>
   split_lines ''RALPH_MODE=\"debug\"\<newline>FOO=\"bar\"\<newline>'' =
     [''RALPH_MODE=\"debug\"'', ''FOO=\"bar\"'', []] \<and>
   ''FOO=\"bar\"'' \<noteq> ''FOO=\"bar\"'' @ [carriage_return]"
  by code_simp

theorem update_settings_no_update_witness:
  "files conf_fs CONFIG_FILE = Some conf_text \<and> read_fault example_env = None \<and>
   ''RALPH_MIN_DELAY_SECONDS'' \<in> set ALLOWED_SETTINGS \<and>
   re_match False VALUE_RE (py_str (JInt 5)) \<noteq> None \<and>
   \<not> (\<exists>l\<in>set (split_lines (universal_newlines conf_text)). prefix (''RALPH_MIN_DELAY_SECONDS'' @ ''='') l) \<and>
   update_settings example_env conf_fs (JObj [(''RALPH_MIN_DELAY_SECONDS'', JInt 5)]) =
     (Inr (JObj [(''updated'', JArr [])]), conf_fs) \<and>
   fst (update_settings example_env conf_fs (JObj [(''RALPH_MIN_DELAY_SECONDS'', JInt 5)])) =
     Inr (JObj [(''updated'', JArr [])]) \<and>
   snd (update_settings example_env conf_fs (JObj [(''RALPH_MIN_DELAY_SECONDS'', JInt 5)])) = conf_fs"
proof -
  have f: "files conf_fs CONFIG_FILE = Some conf_text"
    by (simp add: conf_fs_def)
  have r: "read_fault example_env = None"
    by (simp add: example_env_def)
  have a: "''RALPH_MIN_DELAY_SECONDS'' \<in> set ALLOWED_SETTINGS"
    by (simp add: ALLOWED_SETTINGS_def)
  have m: "re_match False VALUE_RE (py_str (JInt 5)) \<noteq> None"
    by code_simp
  have n: "\<not> (\<exists>l\<in>set (split_lines (universal_newlines conf_text)). prefix (''RALPH_MIN_DELAY_SECONDS'' @ ''='') l)"
    by code_simp
  have b: "\<forall>(k, v)\<in>set [(''RALPH_MIN_DELAY_SECONDS'', JInt 5)].
        k \<notin> set ALLOWED_SETTINGS \<or> re_match False VALUE_RE (py_str v) = None \<or>
        \<not> (\<exists>l\<in>set (split_lines (universal_newlines conf_text)). prefix (k @ ''='') l)"
    using n by simp
  note t = update_settings_no_update [of example_env conf_fs
      "JObj [(''RALPH_MIN_DELAY_SECONDS'', JInt 5)]" conf_text "[(''RALPH_MIN_DELAY_SECONDS'', JInt 5)]"]
  from t f r b have t2: "update_settings example_env conf_fs (JObj [(''RALPH_MIN_DELAY_SECONDS'', JInt 5)]) =
     (Inr (JObj [(''updated'', JArr [])]), conf_fs)"
    by blast
  then have t3: "fst (update_settings example_env conf_fs (JObj [(''RALPH_MIN_DELAY_SECONDS'', JInt 5)])) =
     Inr (JObj [(''updated'', JArr [])])"
    by simp
  with t have t4: "snd (update_settings example_env conf_fs (JObj [(''RALPH_MIN_DELAY_SECONDS'', JInt 5)])) = conf_fs"
    by blast
  show ?thesis
    using f r a m n t2 t3 t4 by (intro conjI)
qed

end
